theory Spec2Isabelle
  imports Complex_Main "HOL-Library.AList"
begin

section \<open>YT-Sync: the job orchestration core of \<^verbatim>\<open>yt_sync.py\<close>\<close>

text \<open>
  A shallow embedding of the parts of \<^verbatim>\<open>yt_sync.py\<close> that manage download jobs:
  the progress parser, the per-line update of a job record, the catalog load and its
  read-modify-write cycles, the job table with its queue positions, and the worker loop.

  Conventions of the embedding.
  \<^item> A Python \<^verbatim>\<open>str\<close> is a \<^typ>\<open>string\<close>; a \<^typ>\<open>char\<close> stands for a code point
    below 256, so the model covers the lines whose code points are all below 256.
  \<^item> \<^verbatim>\<open>None\<close> is \<^term>\<open>None\<close>; an exception is a value of \<open>py_error\<close>, and a function
    that may raise returns a sum whose left injection is the exception.
  \<^item> A Python \<^verbatim>\<open>float\<close> is a \<^typ>\<open>real\<close>: the rounding to binary64 is not modelled.
  \<^item> A \<^verbatim>\<open>dict\<close> whose iteration order matters is an association list in
    insertion order.
\<close>

subsection \<open>Python strings\<close>

datatype py_error =
    ValueError string
  | KeyError string
  | JSONDecodeError string
  | OSError string
  | RuntimeError string

text \<open>\<^verbatim>\<open>str(e)\<close>, the message the handlers store in a job record. Python puts the
  \<^verbatim>\<open>repr\<close> of the key (quotes around a string key) in the message of a \<^verbatim>\<open>KeyError\<close>.\<close>

fun py_str :: "py_error \<Rightarrow> string" where
  "py_str (ValueError m) = m"
| "py_str (KeyError k) = [CHR 0x27] @ k @ [CHR 0x27]"
| "py_str (JSONDecodeError m) = m"
| "py_str (OSError m) = m"
| "py_str (RuntimeError m) = m"

text \<open>The code points below 256 for which \<^verbatim>\<open>str.isspace\<close> holds; \<^verbatim>\<open>\s\<close> of a
  \<^verbatim>\<open>str\<close> pattern and \<^verbatim>\<open>str.strip()\<close> use the same set.\<close>

definition is_space :: "char \<Rightarrow> bool" where
  "is_space c \<longleftrightarrow> c \<in> set [CHR 0x09, CHR 0x0A, CHR 0x0B, CHR 0x0C, CHR 0x0D,
      CHR 0x1C, CHR 0x1D, CHR 0x1E, CHR 0x1F, CHR 0x20, CHR 0x85, CHR 0xA0]"

text \<open>\<^verbatim>\<open>\d\<close>: the decimal digits (category Nd); below 256 these are 0 to 9.\<close>

definition is_digit :: "char \<Rightarrow> bool" where
  "is_digit c \<longleftrightarrow> c \<in> set ''0123456789''"

definition rstrip :: "string \<Rightarrow> string" where
  "rstrip s = rev (dropWhile is_space (rev s))"

definition lstrip :: "string \<Rightarrow> string" where
  "lstrip s = dropWhile is_space s"

definition strip :: "string \<Rightarrow> string" where
  "strip s = rstrip (lstrip s)"

text \<open>\<^verbatim>\<open>s.strip(c)\<close> for a one-character argument.\<close>

definition strip_char :: "char \<Rightarrow> string \<Rightarrow> string" where
  "strip_char c s = rev (dropWhile (\<lambda>x. x = c) (rev (dropWhile (\<lambda>x. x = c) s)))"

text \<open>\<^verbatim>\<open>str.lower()\<close> on code points below 256: A to Z, and the upper-case letters of
  Latin-1 (0xC0 to 0xDE without the multiplication sign 0xD7), move up by 32.\<close>

definition lower_char :: "char \<Rightarrow> char" where
  "lower_char c =
     (let n = (of_char c :: nat)
      in if (65 \<le> n \<and> n \<le> 90) \<or> (192 \<le> n \<and> n \<le> 222 \<and> n \<noteq> 215)
         then char_of (n + 32) else c)"

definition lower :: "string \<Rightarrow> string" where
  "lower s = map lower_char s"

text \<open>\<^verbatim>\<open>sub in s\<close>: \<open>sub\<close> occurs in \<open>s\<close> as a contiguous run.\<close>

fun starts_with :: "string \<Rightarrow> string \<Rightarrow> bool" where
  "starts_with [] s = True"
| "starts_with (c # cs) [] = False"
| "starts_with (c # cs) (x # xs) = (c = x \<and> starts_with cs xs)"

fun contains :: "string \<Rightarrow> string \<Rightarrow> bool" where
  "contains sub [] = (sub = [])"
| "contains sub (x # xs) = (starts_with sub (x # xs) \<or> contains sub xs)"

subsection \<open>Regular expressions as \<^verbatim>\<open>re\<close> runs them\<close>

text \<open>
  The two patterns of the source are sequences of literals, an alternative of two
  literals, optional characters and greedy repetitions of a character class, with
  capturing groups around runs of them. \<^verbatim>\<open>re\<close> is a backtracking matcher: a greedy
  repetition takes the longest run first and gives characters back one at a time, an
  optional character is tried present first, the first alternative is tried first, and
  \<^verbatim>\<open>search\<close> takes the leftmost start at which the pattern matches.
\<close>

datatype cls = Digit_Dot | Space | Non_Space | Digit_Colon | Not_Quote_Newline

fun in_cls :: "cls \<Rightarrow> char \<Rightarrow> bool" where
  "in_cls Digit_Dot c = (is_digit c \<or> c = CHR ''.'')"
| "in_cls Space c = is_space c"
| "in_cls Non_Space c = (\<not> is_space c)"
| "in_cls Digit_Colon c = (is_digit c \<or> c = CHR '':'')"
| "in_cls Not_Quote_Newline c = (c \<noteq> CHR 0x22 \<and> c \<noteq> CHR 0x0A)"

datatype item =
    Lit string
  | Alt string string
  | Opt char
  | Star cls
  | Plus cls
  | Open_Group
  | Close_Group

text \<open>The first candidate, in the order given, that succeeds.\<close>

fun first_some :: "'a option list \<Rightarrow> 'a option" where
  "first_some [] = None"
| "first_some (None # xs) = first_some xs"
| "first_some (Some x # xs) = Some x"

text \<open>The run lengths a greedy repetition tries: the longest first, down to \<open>lo\<close>.\<close>

definition greedy :: "nat \<Rightarrow> cls \<Rightarrow> string \<Rightarrow> nat list" where
  "greedy lo c s = rev [lo ..< Suc (length (takeWhile (in_cls c) s))]"

text \<open>
  \<open>rmatch items s p st\<close> matches \<open>items\<close> at the head of \<open>s\<close>, which starts at
  offset \<open>p\<close> of the line; \<open>st\<close> holds the offsets at which the open groups started. The
  result lists the groups, in the order in which they close, as (start, end) offsets.
\<close>

fun rmatch :: "item list \<Rightarrow> string \<Rightarrow> nat \<Rightarrow> nat list \<Rightarrow> (nat \<times> nat) list option" where
  "rmatch [] s p st = Some []"
| "rmatch (Lit l # r) s p st =
     (if starts_with l s then rmatch r (drop (length l) s) (p + length l) st else None)"
| "rmatch (Alt a b # r) s p st =
     first_some
       [if starts_with a s then rmatch r (drop (length a) s) (p + length a) st else None,
        if starts_with b s then rmatch r (drop (length b) s) (p + length b) st else None]"
| "rmatch (Opt c # r) s p st =
     first_some
       [if starts_with [c] s then rmatch r (drop 1 s) (p + 1) st else None,
        rmatch r s p st]"
| "rmatch (Star c # r) s p st =
     first_some (map (\<lambda>k. rmatch r (drop k s) (p + k) st) (greedy 0 c s))"
| "rmatch (Plus c # r) s p st =
     first_some (map (\<lambda>k. rmatch r (drop k s) (p + k) st) (greedy 1 c s))"
| "rmatch (Open_Group # r) s p st = rmatch r s p (p # st)"
| "rmatch (Close_Group # r) s p st =
     (case st of
        [] \<Rightarrow> None
      | b # st' \<Rightarrow> map_option (\<lambda>gs. (b, p) # gs) (rmatch r s p st'))"

text \<open>\<^verbatim>\<open>pattern.search(line)\<close>: the groups of the leftmost match, as strings.\<close>

definition re_search :: "item list \<Rightarrow> string \<Rightarrow> string list option" where
  "re_search items line =
     map_option (map (\<lambda>(b, e). take (e - b) (drop b line)))
       (first_some (map (\<lambda>i. rmatch items (drop i line) i []) [0 ..< Suc (length line)]))"

subsection \<open>Progress parsing\<close>

text \<open>\<^verbatim>\<open>_RE_PROGRESS\<close>:
  \<^verbatim>\<open>\[download\]\s+([\d.]+)%\s+of\s+~?\s*([\d.]+\s*\S+)\s+at\s+([\d.]+\s*\S+/s)\s+ETA\s+([\d:]+)\<close>\<close>

definition RE_PROGRESS :: "item list" where
  "RE_PROGRESS =
     [Lit ''[download]'', Plus Space,
      Open_Group, Plus Digit_Dot, Close_Group,
      Lit ''%'', Plus Space, Lit ''of'', Plus Space, Opt (CHR ''~''), Star Space,
      Open_Group, Plus Digit_Dot, Star Space, Plus Non_Space, Close_Group,
      Plus Space, Lit ''at'', Plus Space,
      Open_Group, Plus Digit_Dot, Star Space, Plus Non_Space, Lit ''/s'', Close_Group,
      Plus Space, Lit ''ETA'', Plus Space,
      Open_Group, Plus Digit_Colon, Close_Group]"

text \<open>\<^verbatim>\<open>_RE_DEST\<close>: \<^verbatim>\<open>(?:Destination:|Merging formats into)\s+"?([^"\n]+)"?\<close>\<close>

definition RE_DEST :: "item list" where
  "RE_DEST =
     [Alt ''Destination:'' ''Merging formats into'', Plus Space, Opt (CHR 0x22),
      Open_Group, Plus Not_Quote_Newline, Close_Group, Opt (CHR 0x22)]"

text \<open>
  \<^verbatim>\<open>float(s)\<close> for a string of digits and dots, which is all the first group of
  \<^verbatim>\<open>_RE_PROGRESS\<close> can hold: Python accepts it when it has at most one dot and at least
  one digit, and raises \<^verbatim>\<open>ValueError\<close> otherwise. The value is the exact decimal: on a
  run of digits too long for binary64 Python returns \<^verbatim>\<open>inf\<close>, also without raising.
\<close>

fun digits_value :: "string \<Rightarrow> nat" where
  "digits_value s = foldl (\<lambda>n c. 10 * n + (of_char c - of_char (CHR ''0''))) 0 s"

definition float_error :: "string \<Rightarrow> py_error" where
  "float_error s =
     ValueError (''could not convert string to float: '' @ [CHR 0x27] @ s @ [CHR 0x27])"

definition py_float :: "string \<Rightarrow> py_error + real" where
  "py_float s =
     (let ip = takeWhile is_digit s; rest = dropWhile is_digit s
      in case rest of
           [] \<Rightarrow> if ip = [] then Inl (float_error s) else Inr (real (digits_value ip))
         | c # fp \<Rightarrow>
             if c = CHR ''.'' \<and> list_all is_digit fp \<and> (ip \<noteq> [] \<or> fp \<noteq> [])
             then Inr (real (digits_value ip) + real (digits_value fp) / 10 ^ length fp)
             else Inl (float_error s))"

record progress =
  pct :: real
  p_size :: string
  p_speed :: string
  p_eta :: string

definition parse_line :: "string \<Rightarrow> py_error + progress option" where
  "parse_line line =
     (case re_search RE_PROGRESS line of
        Some [g1, g2, g3, g4] \<Rightarrow>
          (case py_float g1 of
             Inl e \<Rightarrow> Inl e
           | Inr x \<Rightarrow> Inr (Some \<lparr>pct = x, p_size = strip g2, p_speed = strip g3, p_eta = strip g4\<rparr>))
      | _ \<Rightarrow> Inr None)"

subsection \<open>Job records\<close>

datatype status = Queued | Running | Done | Error

text \<open>The values the source gives \<^verbatim>\<open>phase\<close>: \<^verbatim>\<open>"queued"\<close>, \<^verbatim>\<open>"starting"\<close>,
  \<^verbatim>\<open>"downloading"\<close>, \<^verbatim>\<open>"audio"\<close>, \<^verbatim>\<open>"video"\<close>, \<^verbatim>\<open>"merging"\<close>, \<^verbatim>\<open>"converting"\<close>
  and \<^verbatim>\<open>"done"\<close>.\<close>

datatype phase =
    Ph_queued | Ph_starting | Ph_downloading | Ph_audio | Ph_video
  | Ph_merging | Ph_converting | Ph_done

record job =
  j_id :: string
  playlist_id :: string
  video_id :: string
  title :: string
  quality :: string
  audio_only :: bool
  status :: status
  queue_pos :: nat
  progress :: real
  speed :: string
  eta :: string
  j_size :: string
  phase :: phase
  job_log :: "string list"
  started :: "real option"
  finished :: "real option"
  j_file :: "string option"
  j_error :: "string option"

text \<open>The record \<^verbatim>\<open>add_job\<close> stores.\<close>

definition new_job :: "string \<Rightarrow> string \<Rightarrow> string \<Rightarrow> string \<Rightarrow> string \<Rightarrow> bool \<Rightarrow> job" where
  "new_job jid pl vid ttl q ao =
     \<lparr>j_id = jid, playlist_id = pl, video_id = vid, title = ttl, quality = q,
      audio_only = ao, status = Queued, queue_pos = 0, progress = 0, speed = [],
      eta = [], j_size = [], phase = Ph_queued, job_log = [], started = None,
      finished = None, j_file = None, j_error = None\<rparr>"

subsection \<open>The per-line update of the Job Runner\<close>

text \<open>\<^verbatim>\<open>j["log"].append(line)\<close>, then \<^verbatim>\<open>j["log"] = j["log"][-60:]\<close> when the log is longer
  than 60.\<close>

definition append_log :: "string \<Rightarrow> string list \<Rightarrow> string list" where
  "append_log line lg =
     (let l = lg @ [line] in if length l > 60 then drop (length l - 60) l else l)"

text \<open>Lines 203 to 223 of the source, on the job's record.\<close>

definition line_update :: "string \<Rightarrow> progress option \<Rightarrow> job \<Rightarrow> job" where
  "line_update line parsed j =
     (let j1 = j\<lparr>job_log := append_log line (job_log j)\<rparr>;
          j2 = (case parsed of
                  None \<Rightarrow> j1
                | Some p \<Rightarrow> j1\<lparr>progress := pct p, speed := p_speed p, eta := p_eta p,
                              j_size := p_size p\<rparr>);
          low = lower line;
          j3 = (if contains ''[download]'' line
                then (if contains ''audio'' low then j2\<lparr>phase := Ph_audio\<rparr>
                      else if contains ''video'' low then j2\<lparr>phase := Ph_video\<rparr>
                      else if parsed \<noteq> None \<and> (phase j2 = Ph_starting \<or> phase j2 = Ph_queued)
                      then j2\<lparr>phase := Ph_downloading\<rparr>
                      else j2)
                else j2);
          j4 = (if contains ''[merger]'' low
                then j3\<lparr>phase := Ph_merging, progress := 99, speed := [], eta := []\<rparr>
                else j3);
          j5 = (if contains ''[extractaudio]'' low
                then j4\<lparr>phase := Ph_converting, progress := 99, speed := [], eta := []\<rparr>
                else j4)
      in j5)"

text \<open>Lines 224 to 226: the output path a line announces replaces the one held.\<close>

definition dest_update :: "string \<Rightarrow> string option \<Rightarrow> string option" where
  "dest_update line out =
     (case re_search RE_DEST line of
        Some [g] \<Rightarrow> Some (strip_char (CHR 0x27) (strip_char (CHR 0x22) (strip g)))
      | _ \<Rightarrow> out)"

subsection \<open>The job table\<close>

text \<open>\<^verbatim>\<open>jobs\<close>, a \<^verbatim>\<open>dict\<close> from job id to job record, in insertion order:
  \<^const>\<open>AList.update\<close> replaces the value of a key in place and appends a new key at the end,
  as assignment to \<^verbatim>\<open>jobs[job_id]\<close> does.\<close>

type_synonym job_table = "(string \<times> job) list"

text \<open>\<^verbatim>\<open>_update_queue_positions\<close>: the queued jobs are numbered from 1 in the order of
  the table.\<close>

fun renumber :: "nat \<Rightarrow> job_table \<Rightarrow> job_table" where
  "renumber pos [] = []"
| "renumber pos ((k, j) # r) =
     (if status j = Queued then (k, j\<lparr>queue_pos := pos\<rparr>) # renumber (pos + 1) r
      else (k, j) # renumber pos r)"

definition update_queue_positions :: "job_table \<Rightarrow> job_table" where
  "update_queue_positions jobs = renumber 1 jobs"

text \<open>Lines 151 to 161 of \<^verbatim>\<open>add_job\<close>; \<open>jid\<close> is the identifier drawn from
  \<^verbatim>\<open>uuid4\<close>.\<close>

definition add_job ::
  "string \<Rightarrow> string \<Rightarrow> string \<Rightarrow> string \<Rightarrow> string \<Rightarrow> bool \<Rightarrow> job_table \<Rightarrow> job_table" where
  "add_job jid pl vid ttl q ao jobs =
     update_queue_positions (AList.update jid (new_job jid pl vid ttl q ao) jobs)"

text \<open>An assignment to fields of \<^verbatim>\<open>jobs[job_id]\<close>: \<^verbatim>\<open>KeyError\<close> when the table has no
  such job.\<close>

definition modify :: "string \<Rightarrow> (job \<Rightarrow> job) \<Rightarrow> job_table \<Rightarrow> py_error + job_table" where
  "modify jid f jobs =
     (case map_of jobs jid of
        None \<Rightarrow> Inl (KeyError jid)
      | Some j \<Rightarrow> Inr (AList.update jid (f j) jobs))"

text \<open>Lines 166 to 170 of \<^verbatim>\<open>_run_job\<close>.\<close>

definition start_job :: "real \<Rightarrow> string \<Rightarrow> job_table \<Rightarrow> py_error + job_table" where
  "start_job now jid jobs =
     (case modify jid (\<lambda>j. j\<lparr>status := Running, started := Some now,
                               phase := Ph_starting\<rparr>) jobs of
        Inl e \<Rightarrow> Inl e
      | Inr jobs' \<Rightarrow> Inr (update_queue_positions jobs'))"

text \<open>Lines 176 to 178 and 265 to 267: the job is given status \<^verbatim>\<open>error\<close>, a message
  and a finish time.\<close>

definition set_error :: "string \<Rightarrow> real \<Rightarrow> string \<Rightarrow> job_table \<Rightarrow> py_error + job_table" where
  "set_error msg now jid jobs =
     modify jid (\<lambda>j. j\<lparr>status := Error, j_error := Some msg, finished := Some now\<rparr>) jobs"

text \<open>Lines 130 to 134, the handler of \<^verbatim>\<open>_worker\<close>: the same assignments, under
  \<^verbatim>\<open>if job_id in jobs\<close>.\<close>

definition worker_except :: "py_error \<Rightarrow> real \<Rightarrow> string \<Rightarrow> job_table \<Rightarrow> py_error + job_table" where
  "worker_except e now jid jobs =
     (if jid \<in> set (map fst jobs) then set_error (py_str e) now jid jobs else Inr jobs)"

text \<open>Lines 240 to 243.\<close>

definition finish_done :: "string option \<Rightarrow> real \<Rightarrow> string \<Rightarrow> job_table \<Rightarrow> py_error + job_table" where
  "finish_done out now jid jobs =
     modify jid (\<lambda>j. j\<lparr>status := Done, progress := 100, speed := [], eta := [],
                       phase := Ph_done, j_file := out, finished := Some now\<rparr>) jobs"

text \<open>Line 259: the last line of the log that is not blank, stripped, or a fixed
  text.\<close>

definition error_hint :: "string list \<Rightarrow> string" where
  "error_hint lg =
     (case filter (\<lambda>l. l \<noteq> []) (map strip (rev lg)) of
        [] \<Rightarrow> ''yt-dlp error''
      | h # _ \<Rightarrow> h)"

text \<open>Lines 257 to 261.\<close>

definition finish_error :: "real \<Rightarrow> string \<Rightarrow> job_table \<Rightarrow> py_error + job_table" where
  "finish_error now jid jobs =
     modify jid (\<lambda>j. j\<lparr>status := Error, j_error := Some (error_hint (job_log j)),
                       finished := Some now\<rparr>) jobs"

text \<open>Lines 581 to 584 of \<^verbatim>\<open>do_POST\<close> (\<^verbatim>\<open>/api/jobs/clear\<close>).\<close>

definition clear_jobs :: "job_table \<Rightarrow> job_table" where
  "clear_jobs jobs = filter (\<lambda>(k, j). status j \<noteq> Done \<and> status j \<noteq> Error) jobs"

text \<open>
  Lines 199 to 226, the loop over \<^verbatim>\<open>proc.stdout\<close>. \<^verbatim>\<open>parse_line\<close> runs before the
  record is touched, so a line on which it raises is not appended and ends the loop with
  the exception. The result holds the exception, if any, the table and the output path
  captured so far.
\<close>

fun stream_lines ::
  "string list \<Rightarrow> string \<Rightarrow> job_table \<times> string option \<Rightarrow>
     py_error option \<times> job_table \<times> string option" where
  "stream_lines [] jid (jobs, out) = (None, jobs, out)"
| "stream_lines (raw # raws) jid (jobs, out) =
     (case parse_line (rstrip raw) of
        Inl e \<Rightarrow> (Some e, jobs, out)
      | Inr parsed \<Rightarrow>
          (case modify jid (line_update (rstrip raw) parsed) jobs of
             Inl e \<Rightarrow> (Some e, jobs, out)
           | Inr jobs' \<Rightarrow> stream_lines raws jid (jobs', dest_update (rstrip raw) out)))"

text \<open>The lines of the output that the loop appends: those before the first one on
  which \<^verbatim>\<open>parse_line\<close> raises.\<close>

definition appended :: "string list \<Rightarrow> string list" where
  "appended raws = map rstrip (takeWhile (\<lambda>raw. \<not> isl (parse_line (rstrip raw))) raws)"

definition last_n :: "nat \<Rightarrow> 'a list \<Rightarrow> 'a list" where
  "last_n n xs = drop (length xs - n) xs"

subsection \<open>The catalog\<close>

record video =
  v_id :: string
  v_title :: string
  uploader :: string
  duration :: "real option"
  thumbnail :: string
  url :: string
  downloaded :: bool
  file_path :: "string option"
  v_quality :: "string option"
  v_audio_only :: "bool option"

record playlist =
  pl_id :: string
  pl_url :: string
  pl_title :: string
  videos :: "video list"
  added :: real
  synced :: real

record settings =
  download_dir :: string
  threads :: int

record catalog =
  playlists :: "(string \<times> playlist) list"
  settings :: settings

text \<open>
  The state of \<^verbatim>\<open>DATA_FILE\<close>. \<open>Present r\<close> is a file that exists, with \<open>r\<close> what
  \<^verbatim>\<open>open\<close> followed by \<^verbatim>\<open>json.load\<close> does on it: raise (a file that cannot be read, or
  whose text is not JSON), or return the decoded catalog. Decoded values are taken to
  have the catalog's shape.
\<close>

datatype data_file = Absent | Present "py_error + catalog"

text \<open>\<^verbatim>\<open>load_data\<close>; \<open>dd\<close> is \<^verbatim>\<open>str(DOWNLOAD_DIR)\<close> and \<^verbatim>\<open>DEFAULT_THREADS\<close> is 3. The source
  has no handler around \<^verbatim>\<open>json.load\<close>.\<close>

definition DEFAULT_THREADS :: int where
  "DEFAULT_THREADS = 3"

definition empty_catalog :: "string \<Rightarrow> catalog" where
  "empty_catalog dd =
     \<lparr>playlists = [], settings = \<lparr>download_dir = dd, threads = DEFAULT_THREADS\<rparr>\<rparr>"

definition load_data :: "string \<Rightarrow> data_file \<Rightarrow> py_error + catalog" where
  "load_data dd f = (case f of Absent \<Rightarrow> Inr (empty_catalog dd) | Present r \<Rightarrow> r)"

text \<open>\<^verbatim>\<open>save_data\<close>; the write itself is taken to succeed.\<close>

definition save_data :: "catalog \<Rightarrow> data_file" where
  "save_data c = Present (Inr c)"

text \<open>
  An entry of the JSON that \<^verbatim>\<open>yt-dlp --flat-playlist -J\<close> prints; a key that is missing
  is \<^term>\<open>None\<close>, and a key that is there holds a string (a key that holds \<^verbatim>\<open>null\<close> would
  put \<^verbatim>\<open>None\<close> in the Video, which these records do not model). In the list of entries, \<^term>\<open>None\<close> is an entry that is not truthy
  (\<^verbatim>\<open>null\<close> or an empty object), which \<^verbatim>\<open>fetch_playlist_info\<close> skips.
\<close>

record entry =
  e_id :: "string option"
  e_title :: "string option"
  e_uploader :: "string option"
  e_duration :: "real option"
  e_thumbnail :: "string option"

definition get_or :: "'a option \<Rightarrow> 'a \<Rightarrow> 'a" where
  "get_or x d = (case x of None \<Rightarrow> d | Some v \<Rightarrow> v)"

text \<open>Lines 89 to 98: the Video record made from one entry.\<close>

definition video_of_entry :: "entry \<Rightarrow> video" where
  "video_of_entry e =
     \<lparr>v_id = get_or (e_id e) [], v_title = get_or (e_title e) ''Unknown'',
      uploader = get_or (e_uploader e) [], duration = e_duration e,
      thumbnail = get_or (e_thumbnail e) [],
      url = ''https://www.youtube.com/watch?v='' @ get_or (e_id e) [],
      downloaded = False, file_path = None, v_quality = None, v_audio_only = None\<rparr>"

text \<open>Lines 86 to 98: the loop of \<^verbatim>\<open>fetch_playlist_info\<close> over the entries.\<close>

fun fetch_videos :: "entry option list \<Rightarrow> video list" where
  "fetch_videos [] = []"
| "fetch_videos (None # es) = fetch_videos es"
| "fetch_videos (Some e # es) = video_of_entry e # fetch_videos es"

text \<open>Lines 248 to 254: the first Video with the job's video id is marked; the
  \<^verbatim>\<open>break\<close> leaves the rest as they are.\<close>

fun mark_downloaded :: "string \<Rightarrow> string option \<Rightarrow> string \<Rightarrow> bool \<Rightarrow> video list \<Rightarrow> video list" where
  "mark_downloaded vid out q ao [] = []"
| "mark_downloaded vid out q ao (v # vs) =
     (if v_id v = vid
      then v\<lparr>downloaded := True, file_path := out, v_quality := Some q,
             v_audio_only := Some ao\<rparr> # vs
      else v # mark_downloaded vid out q ao vs)"

text \<open>Lines 244 to 255, on the file as it is when the job has finished: the catalog
  is saved only when the playlist is still there.\<close>

definition reconcile ::
  "string \<Rightarrow> string \<Rightarrow> job_table \<Rightarrow> string option \<Rightarrow> data_file \<Rightarrow> py_error + data_file" where
  "reconcile dd jid jobs out f =
     (case load_data dd f of
        Inl e \<Rightarrow> Inl e
      | Inr data \<Rightarrow>
          (case map_of jobs jid of
             None \<Rightarrow> Inl (KeyError jid)
           | Some j \<Rightarrow>
               (case map_of (playlists data) (playlist_id j) of
                  None \<Rightarrow> Inr f
                | Some pl \<Rightarrow>
                    Inr (save_data (data\<lparr>playlists :=
                           AList.update (playlist_id j)
                             (pl\<lparr>videos := mark_downloaded (video_id j) out (quality j)
                                              (audio_only j) (videos pl)\<rparr>)
                             (playlists data)\<rparr>)))))"

text \<open>Python's truth value of \<^verbatim>\<open>v.get("file_path")\<close>: neither \<^verbatim>\<open>None\<close> nor empty.\<close>

definition truthy :: "string option \<Rightarrow> bool" where
  "truthy x = (case x of None \<Rightarrow> False | Some s \<Rightarrow> s \<noteq> [])"

text \<open>Lines 600 to 612 of \<^verbatim>\<open>do_POST\<close> (\<^verbatim>\<open>/api/video/delete-file\<close>), on the Video
  records; removing the file from the disk does not touch them.\<close>

definition delete_file :: "string list \<Rightarrow> video \<Rightarrow> video" where
  "delete_file video_ids v =
     (if v_id v \<in> set video_ids \<and> truthy (file_path v)
      then v\<lparr>downloaded := False, file_path := None, v_quality := None,
             v_audio_only := None\<rparr>
      else v)"

definition delete_files :: "string list \<Rightarrow> video list \<Rightarrow> video list" where
  "delete_files video_ids vs = map (delete_file video_ids) vs"

text \<open>The invariant of the data model: a Video is downloaded exactly when it has a
  file path.\<close>

definition video_ok :: "video \<Rightarrow> bool" where
  "video_ok v \<longleftrightarrow> (downloaded v \<longleftrightarrow> file_path v \<noteq> None)"

subsection \<open>The Job Runner and the worker loop\<close>

text \<open>\<^verbatim>\<open>Path.suffix\<close>: the part of the last path component from its last dot on, when
  that dot is neither its first nor its last character.\<close>

definition path_name :: "string \<Rightarrow> string" where
  "path_name p = rev (takeWhile (\<lambda>c. c \<noteq> CHR ''/'') (rev p))"

definition suffix :: "string \<Rightarrow> string" where
  "suffix p =
     (let name = path_name p; ext = rev (takeWhile (\<lambda>c. c \<noteq> CHR ''.'') (rev name))
      in if ext \<noteq> [] \<and> length ext + 1 < length name then CHR ''.'' # ext else [])"

definition media_suffixes :: "string list" where
  "media_suffixes = [''.mp4'', ''.mp3'', ''.webm'', ''.mkv'', ''.m4a'']"

text \<open>\<^verbatim>\<open>sorted(files, key=mtime, reverse=True)\<close>: newest first, files of equal time in
  their given order.\<close>

definition newest_first :: "(string \<times> real) list \<Rightarrow> string list" where
  "newest_first found = map fst (rev (sort_key snd (rev found)))"

text \<open>Lines 233 to 238: the scan of the output directory. \<open>found\<close> is what \<^verbatim>\<open>glob\<close>
  and \<^verbatim>\<open>stat\<close> give: an exception, or the files whose name holds the video id with their
  modification times. When no file has a media suffix the path is left as it was.\<close>

definition scan_output ::
  "py_error + (string \<times> real) list \<Rightarrow> string option \<Rightarrow> py_error + string option" where
  "scan_output found out =
     (case found of
        Inl e \<Rightarrow> Inl e
      | Inr files \<Rightarrow>
          Inr (case filter (\<lambda>f. suffix f \<in> set media_suffixes) (newest_first files) of
                 [] \<Rightarrow> out
               | f # _ \<Rightarrow> Some f))"

text \<open>
  Lines 231 to 238. \<open>ex\<close> is \<^verbatim>\<open>Path.exists\<close>, which returns a truth value or raises
  (on a name the file system refuses); it is called only when a path was captured and is
  not empty.
\<close>

definition resolve_output ::
  "(string \<Rightarrow> py_error + bool) \<Rightarrow> py_error + (string \<times> real) list \<Rightarrow> string option \<Rightarrow>
     py_error + string option" where
  "resolve_output ex found out =
     (if \<not> truthy out then scan_output found out
      else (case ex (get_or out []) of
              Inl e \<Rightarrow> Inl e
            | Inr True \<Rightarrow> Inr out
            | Inr False \<Rightarrow> scan_output found out))"

text \<open>
  What one run of \<^verbatim>\<open>_run_job\<close> meets outside the job table: the clock at its start,
  when the job is marked done and when a failure is recorded, the data file as it is
  when the run starts, whether \<^verbatim>\<open>mkdir\<close> or \<^verbatim>\<open>Popen\<close> raise, the lines the subprocess
  prints and its return code, and what \<^verbatim>\<open>Path.exists\<close> and the scan of the output
  directory give.
\<close>

record env =
  t_start :: real
  t_done :: real
  t_fail :: real
  data_at_start :: data_file
  mkdir_error :: "py_error option"
  popen_error :: "py_error option"
  out_lines :: "string list"
  returncode :: int
  path_exists :: "string \<Rightarrow> py_error + bool"
  found_files :: "py_error + (string \<times> real) list"

text \<open>A run returns the exception that leaves it, if any, with the job table and the
  data file as the run left them.\<close>

type_synonym outcome = "py_error option \<times> job_table \<times> data_file"

text \<open>Lines 230 to 255: the subprocess has returned 0.\<close>

definition on_success :: "string \<Rightarrow> env \<Rightarrow> string \<Rightarrow> string option \<Rightarrow> job_table \<Rightarrow> data_file \<Rightarrow> outcome" where
  "on_success dd ev jid out jobs f =
     (case resolve_output (path_exists ev) (found_files ev) out of
        Inl e \<Rightarrow> (Some e, jobs, f)
      | Inr out' \<Rightarrow>
          (case finish_done out' (t_done ev) jid jobs of
             Inl e \<Rightarrow> (Some e, jobs, f)
           | Inr jobs' \<Rightarrow>
               (case reconcile dd jid jobs' out' f of
                  Inl e \<Rightarrow> (Some e, jobs', f)
                | Inr f' \<Rightarrow> (None, jobs', f'))))"

text \<open>Lines 195 to 261, the body of the \<^verbatim>\<open>try\<close>.\<close>

definition download :: "string \<Rightarrow> env \<Rightarrow> string \<Rightarrow> job_table \<Rightarrow> data_file \<Rightarrow> outcome" where
  "download dd ev jid jobs f =
     (case popen_error ev of
        Some e \<Rightarrow> (Some e, jobs, f)
      | None \<Rightarrow>
          (case stream_lines (out_lines ev) jid (jobs, None) of
             (Some e, jobs', out) \<Rightarrow> (Some e, jobs', f)
           | (None, jobs', out) \<Rightarrow>
               if returncode ev = 0 then on_success dd ev jid out jobs' f
               else (case finish_error (t_fail ev) jid jobs' of
                       Inl e \<Rightarrow> (Some e, jobs', f)
                     | Inr jobs'' \<Rightarrow> (None, jobs'', f))))"

text \<open>Lines 263 to 267, the \<^verbatim>\<open>except Exception\<close> of \<^verbatim>\<open>_run_job\<close>; its assignments
  are not guarded, so they raise \<^verbatim>\<open>KeyError\<close> when the job has left the table.\<close>

definition guarded :: "env \<Rightarrow> string \<Rightarrow> outcome \<Rightarrow> outcome" where
  "guarded ev jid r =
     (case r of
        (None, jobs, f) \<Rightarrow> (None, jobs, f)
      | (Some e, jobs, f) \<Rightarrow>
          (case set_error (py_str e) (t_fail ev) jid jobs of
             Inl e' \<Rightarrow> (Some e', jobs, f)
           | Inr jobs' \<Rightarrow> (None, jobs', f)))"

text \<open>\<^verbatim>\<open>_run_job\<close>. The data file is read twice, at line 172 (\<open>data_at_start\<close>) and at
  line 245 (the file \<open>f\<close> of the state); other requests may change it in between.\<close>

definition run_job :: "string \<Rightarrow> env \<Rightarrow> string \<Rightarrow> job_table \<Rightarrow> data_file \<Rightarrow> outcome" where
  "run_job dd ev jid jobs f =
     (case start_job (t_start ev) jid jobs of
        Inl e \<Rightarrow> (Some e, jobs, f)
      | Inr jobs1 \<Rightarrow>
          (case load_data dd (data_at_start ev) of
             Inl e \<Rightarrow> (Some e, jobs1, f)
           | Inr data \<Rightarrow>
               (case map_of jobs1 jid of
                  None \<Rightarrow> (Some (KeyError jid), jobs1, f)
                | Some j \<Rightarrow>
                    (case map_of (playlists data) (playlist_id j) of
                       None \<Rightarrow>
                         (case set_error ''Playlist not found'' (t_fail ev) jid jobs1 of
                            Inl e \<Rightarrow> (Some e, jobs1, f)
                          | Inr jobs2 \<Rightarrow> (None, jobs2, f))
                     | Some pl \<Rightarrow>
                         (case mkdir_error ev of
                            Some e \<Rightarrow> (Some e, jobs1, f)
                          | None \<Rightarrow> guarded ev jid (download dd ev jid jobs1 f))))))"



text \<open>Every Video of every Playlist of a catalog satisfies the invariant.\<close>

definition catalog_ok :: "catalog \<Rightarrow> bool" where
  "catalog_ok c = list_all (\<lambda>(k, pl). list_all video_ok (videos pl)) (playlists c)"

subsection \<open>A run that finds no media file\<close>

text \<open>
  A catalog with one playlist \<^verbatim>\<open>p1\<close> of one video \<^verbatim>\<open>v1\<close>, and a run in which
  \<^verbatim>\<open>yt-dlp\<close> finds the video already on the disk as an \<^verbatim>\<open>.flv\<close> file: it prints no
  destination line and returns 0, and the output directory holds that file and the
  metadata sidecar.
\<close>

definition ex_video :: video where
  "ex_video =
     \<lparr>v_id = ''v1'', v_title = ''t'', uploader = [], duration = None, thumbnail = [],
      url = ''https://www.youtube.com/watch?v=v1'', downloaded = False,
      file_path = None, v_quality = None, v_audio_only = None\<rparr>"

definition ex_catalog :: catalog where
  "ex_catalog =
     \<lparr>playlists = [(''p1'', \<lparr>pl_id = ''p1'', pl_url = ''u'', pl_title = ''P'',
                              videos = [ex_video], added = 0, synced = 0\<rparr>)],
      settings = \<lparr>download_dir = ''/dl'', threads = 3\<rparr>\<rparr>"

definition ex_env :: env where
  "ex_env =
     \<lparr>t_start = 1, t_done = 2, t_fail = 3, data_at_start = Present (Inr ex_catalog),
      mkdir_error = None, popen_error = None,
      out_lines = [''[download] /dl/p1/t [v1].flv has already been downloaded''],
      returncode = 0, path_exists = (\<lambda>p. Inr (p = ''/dl/p1/t [v1].flv'')),
      found_files = Inr [(''/dl/p1/t [v1].flv'', 4), (''/dl/p1/t [v1].info.json'', 5)]\<rparr>"

definition ex_jobs :: job_table where
  "ex_jobs = add_job ''j1'' ''p1'' ''v1'' ''t'' ''best'' False []"

text \<open>The Videos of playlist \<open>p\<close> in a data file.\<close>

definition videos_in :: "string \<Rightarrow> data_file \<Rightarrow> video list" where
  "videos_in p f =
     (case f of
        Present (Inr c) \<Rightarrow> (case map_of (playlists c) p of Some pl \<Rightarrow> videos pl | None \<Rightarrow> [])
      | _ \<Rightarrow> [])"




subsection \<open>The job system: request threads and workers on one job table\<close>

text \<open>
  The job table is shared by the request threads and the workers; every access to it
  is made under \<^verbatim>\<open>jobs_lock\<close>, so a run of the system is a sequence of events, each one
  block of the source under the lock (or a queue operation). A worker is at one of these
  points of \<^verbatim>\<open>_worker\<close> and \<^verbatim>\<open>_run_job\<close>:
  \<^item> \<open>Idle\<close>: waiting in \<^verbatim>\<open>job_queue.get()\<close>;
  \<^item> \<open>Got jid\<close>: it has taken \<open>jid\<close> from the queue, before line 166;
  \<^item> \<open>Started jid\<close>: after line 170, before the \<^verbatim>\<open>try\<close> of line 194;
  \<^item> \<open>Streaming jid\<close>: inside the \<^verbatim>\<open>try\<close>, before the job is marked;
  \<^item> \<open>Finished jid\<close>: after line 243, before the catalog is reconciled;
  \<^item> \<open>Crashed\<close>: an exception has left the loop of \<^verbatim>\<open>_worker\<close>.
\<close>

datatype wstate =
    Idle | Got string | Started string | Streaming string | Finished string | Crashed

fun job_of :: "wstate \<Rightarrow> string option" where
  "job_of Idle = None"
| "job_of (Got jid) = Some jid"
| "job_of (Started jid) = Some jid"
| "job_of (Streaming jid) = Some jid"
| "job_of (Finished jid) = Some jid"
| "job_of Crashed = None"

text \<open>\<open>adding\<close> holds the ids of the calls of \<^verbatim>\<open>add_job\<close> that have left the lock (line
  161) and not yet put their id on the queue (line 162).\<close>

record sys =
  jobs :: job_table
  adding :: "string list"
  job_queue :: "string list"
  workers :: "wstate list"

definition init :: "nat \<Rightarrow> sys" where
  "init n = \<lparr>jobs = [], adding = [], job_queue = [], workers = replicate n Idle\<rparr>"

text \<open>An id is in use when the table, a call of \<^verbatim>\<open>add_job\<close>, the queue or a worker
  holds it.\<close>

definition in_use :: "sys \<Rightarrow> string \<Rightarrow> bool" where
  "in_use s jid \<longleftrightarrow>
     jid \<in> set (map fst (jobs s)) \<or> jid \<in> set (adding s) \<or> jid \<in> set (job_queue s)
     \<or> Some jid \<in> set (map job_of (workers s))"

definition worker_at :: "sys \<Rightarrow> nat \<Rightarrow> wstate option" where
  "worker_at s w = (if w < length (workers s) then Some (workers s ! w) else None)"

text \<open>An exception reaches the handler of \<^verbatim>\<open>_worker\<close> (lines 129 to 134); the worker
  goes back to the queue.\<close>

definition fail_outside :: "nat \<Rightarrow> string \<Rightarrow> py_error \<Rightarrow> real \<Rightarrow> sys \<Rightarrow> sys" where
  "fail_outside w jid e now s =
     (case worker_except e now jid (jobs s) of
        Inr jobs' \<Rightarrow> s\<lparr>jobs := jobs', workers := (workers s)[w := Idle]\<rparr>
      | Inl e' \<Rightarrow> s\<lparr>workers := (workers s)[w := Crashed]\<rparr>)"

text \<open>An exception inside the \<^verbatim>\<open>try\<close> of \<^verbatim>\<open>_run_job\<close> reaches the handler of lines 263
  to 267, and what that handler raises reaches the handler of \<^verbatim>\<open>_worker\<close>.\<close>

definition fail_inside :: "nat \<Rightarrow> string \<Rightarrow> py_error \<Rightarrow> real \<Rightarrow> sys \<Rightarrow> sys" where
  "fail_inside w jid e now s =
     (case set_error (py_str e) now jid (jobs s) of
        Inr jobs' \<Rightarrow> s\<lparr>jobs := jobs', workers := (workers s)[w := Idle]\<rparr>
      | Inl e' \<Rightarrow> fail_outside w jid e' now s)"

datatype event =
    Add string string string string string bool
  | Put string
  | Get nat
  | Start nat real
  | No_Playlist nat real
  | Launch nat
  | Line nat string real
  | Exit_Ok nat "string option" real
  | Exit_Fail nat real
  | Reconciled nat
  | Raise nat py_error real
  | Clear

text \<open>
  \<open>fire ev s\<close> is the state after the event, or \<^term>\<open>None\<close> when the event cannot
  happen in \<open>s\<close>.
  \<^item> \<open>Add\<close>: lines 150 to 161 of \<^verbatim>\<open>add_job\<close>, with the id drawn, which may be any id,
    also one that the table holds (the code does not look); \<open>Put\<close>: line 162.
  \<^item> \<open>Get w\<close>: worker \<open>w\<close> takes the head of the queue (line 126).
  \<^item> \<open>Start w\<close>: lines 166 to 170.
  \<^item> \<open>No_Playlist w\<close>: lines 174 to 179, the playlist is not in the catalog.
  \<^item> \<open>Launch w\<close>: lines 181 to 198, the subprocess starts.
  \<^item> \<open>Line w raw\<close>: one turn of the loop of line 199.
  \<^item> \<open>Exit_Ok w out\<close>: return code 0, lines 230 to 243, with the path resolved;
    \<open>Exit_Fail w\<close>: another return code, lines 257 to 261.
  \<^item> \<open>Reconciled w\<close>: lines 244 to 255 have run, and \<^verbatim>\<open>_run_job\<close> returns.
  \<^item> \<open>Raise w e\<close>: the statement the worker is at raises \<open>e\<close> (reading the data file,
    \<^verbatim>\<open>mkdir\<close>, \<^verbatim>\<open>Popen\<close>, reading the output, saving the catalog).
  \<^item> \<open>Clear\<close>: \<^verbatim>\<open>/api/jobs/clear\<close>.
  The catalog is not part of the state: whether the playlist is found and whether a
  statement raises is left to the events.
\<close>

fun fire :: "event \<Rightarrow> sys \<Rightarrow> sys option" where
  "fire (Add jid pl vid ttl q ao) s =
     Some (s\<lparr>jobs := add_job jid pl vid ttl q ao (jobs s), adding := adding s @ [jid]\<rparr>)"
| "fire (Put jid) s =
     (if jid \<in> set (adding s)
      then Some (s\<lparr>adding := remove1 jid (adding s), job_queue := job_queue s @ [jid]\<rparr>)
      else None)"
| "fire (Get w) s =
     (case (worker_at s w, job_queue s) of
        (Some Idle, jid # q) \<Rightarrow>
          Some (s\<lparr>job_queue := q, workers := (workers s)[w := Got jid]\<rparr>)
      | _ \<Rightarrow> None)"
| "fire (Start w now) s =
     (case worker_at s w of
        Some (Got jid) \<Rightarrow>
          (case start_job now jid (jobs s) of
             Inr jobs' \<Rightarrow> Some (s\<lparr>jobs := jobs', workers := (workers s)[w := Started jid]\<rparr>)
           | Inl e \<Rightarrow> Some (fail_outside w jid e now s))
      | _ \<Rightarrow> None)"
| "fire (No_Playlist w now) s =
     (case worker_at s w of
        Some (Started jid) \<Rightarrow>
          (case set_error ''Playlist not found'' now jid (jobs s) of
             Inr jobs' \<Rightarrow> Some (s\<lparr>jobs := jobs', workers := (workers s)[w := Idle]\<rparr>)
           | Inl e \<Rightarrow> Some (fail_outside w jid e now s))
      | _ \<Rightarrow> None)"
| "fire (Launch w) s =
     (case worker_at s w of
        Some (Started jid) \<Rightarrow> Some (s\<lparr>workers := (workers s)[w := Streaming jid]\<rparr>)
      | _ \<Rightarrow> None)"
| "fire (Line w raw now) s =
     (case worker_at s w of
        Some (Streaming jid) \<Rightarrow>
          (case parse_line (rstrip raw) of
             Inl e \<Rightarrow> Some (fail_inside w jid e now s)
           | Inr parsed \<Rightarrow>
               (case modify jid (line_update (rstrip raw) parsed) (jobs s) of
                  Inr jobs' \<Rightarrow> Some (s\<lparr>jobs := jobs'\<rparr>)
                | Inl e \<Rightarrow> Some (fail_inside w jid e now s)))
      | _ \<Rightarrow> None)"
| "fire (Exit_Ok w out now) s =
     (case worker_at s w of
        Some (Streaming jid) \<Rightarrow>
          (case finish_done out now jid (jobs s) of
             Inr jobs' \<Rightarrow> Some (s\<lparr>jobs := jobs', workers := (workers s)[w := Finished jid]\<rparr>)
           | Inl e \<Rightarrow> Some (fail_inside w jid e now s))
      | _ \<Rightarrow> None)"
| "fire (Exit_Fail w now) s =
     (case worker_at s w of
        Some (Streaming jid) \<Rightarrow>
          (case finish_error now jid (jobs s) of
             Inr jobs' \<Rightarrow> Some (s\<lparr>jobs := jobs', workers := (workers s)[w := Idle]\<rparr>)
           | Inl e \<Rightarrow> Some (fail_inside w jid e now s))
      | _ \<Rightarrow> None)"
| "fire (Reconciled w) s =
     (case worker_at s w of
        Some (Finished jid) \<Rightarrow> Some (s\<lparr>workers := (workers s)[w := Idle]\<rparr>)
      | _ \<Rightarrow> None)"
| "fire (Raise w e now) s =
     (case worker_at s w of
        Some (Started jid) \<Rightarrow> Some (fail_outside w jid e now s)
      | Some (Streaming jid) \<Rightarrow> Some (fail_inside w jid e now s)
      | Some (Finished jid) \<Rightarrow> Some (fail_inside w jid e now s)
      | _ \<Rightarrow> None)"
| "fire Clear s = Some (s\<lparr>jobs := clear_jobs (jobs s)\<rparr>)"

text \<open>The states a sequence of events passes through, the first one first, up to the
  first event that cannot happen.\<close>

fun run :: "event list \<Rightarrow> sys \<Rightarrow> sys list" where
  "run [] s = [s]"
| "run (ev # evs) s =
     s # (case fire ev s of None \<Rightarrow> [] | Some s' \<Rightarrow> run evs s')"

text \<open>
  \<^verbatim>\<open>add_job\<close> takes the first 8 characters of a \<^verbatim>\<open>uuid4\<close> as the id. \<open>fresh ev s\<close> says
  that the event, when it adds a job, draws an id that is not in use in \<open>s\<close>, and
  \<open>no_reuse evs s\<close> that every event of a run from \<open>s\<close> does.
\<close>

fun fresh :: "event \<Rightarrow> sys \<Rightarrow> bool" where
  "fresh (Add jid pl vid ttl q ao) s = (\<not> in_use s jid)"
| "fresh ev s = True"

fun no_reuse :: "event list \<Rightarrow> sys \<Rightarrow> bool" where
  "no_reuse [] s = True"
| "no_reuse (ev # evs) s =
     (fresh ev s \<and> (case fire ev s of None \<Rightarrow> True | Some s' \<Rightarrow> no_reuse evs s'))"

text \<open>The events in which \<^verbatim>\<open>_update_queue_positions\<close> is called (lines 161 and 170).\<close>

fun recomputes :: "event \<Rightarrow> bool" where
  "recomputes (Add jid pl vid ttl q ao) = True"
| "recomputes (Start w now) = True"
| "recomputes ev = False"

text \<open>The queue position that each record of a table holds.\<close>

definition positions :: "job_table \<Rightarrow> (string \<times> nat) list" where
  "positions jbs = map (\<lambda>(k, j). (k, queue_pos j)) jbs"

text \<open>The status of a job in a table, \<^term>\<open>None\<close> when the table does not hold it.\<close>

definition status_of :: "job_table \<Rightarrow> string \<Rightarrow> status option" where
  "status_of jbs jid = map_option status (map_of jbs jid)"

text \<open>The queue positions of the queued jobs, in the order of the table.\<close>

definition queued_positions :: "job_table \<Rightarrow> nat list" where
  "queued_positions jbs = map queue_pos (filter (\<lambda>j. status j = Queued) (map snd jbs))"

definition positions_ok :: "job_table \<Rightarrow> bool" where
  "positions_ok jbs \<longleftrightarrow>
     queued_positions jbs = [1 ..< Suc (length (queued_positions jbs))]"

text \<open>The status of job \<open>jid\<close> in each state of a run.\<close>

definition history :: "string \<Rightarrow> sys list \<Rightarrow> status option list" where
  "history jid tr = map (\<lambda>s. status_of (jobs s) jid) tr"

text \<open>
  \<open>trans_ok a b\<close> bounds one step of the status of a job, from \<open>a\<close> to \<open>b\<close>, by the
  status it reaches: a record leaves the table only when it is neither queued nor
  running; queued is reached only by a record that appears; running is reached only from
  queued; done is reached only from running; error is reached neither by a record that
  appears nor from queued. A status may also stay as it is.
\<close>

fun trans_ok :: "status option \<Rightarrow> status option \<Rightarrow> bool" where
  "trans_ok a None = (a \<noteq> Some Queued \<and> a \<noteq> Some Running)"
| "trans_ok a (Some Queued) = (a = None \<or> a = Some Queued)"
| "trans_ok a (Some Running) = (a = Some Queued \<or> a = Some Running)"
| "trans_ok a (Some Done) = (a = Some Running \<or> a = Some Done)"
| "trans_ok a (Some Error) = (a \<noteq> None \<and> a \<noteq> Some Queued)"

fun chain :: "status option list \<Rightarrow> bool" where
  "chain (a # b # h) = (trans_ok a b \<and> chain (b # h))"
| "chain h = True"

text \<open>
  \<open>lifecycle r h\<close> reads a history from its start: \<open>r\<close> tells whether the record now in
  the table has been seen running. Each entry done or error must come after such an
  entry.
\<close>

fun lifecycle :: "bool \<Rightarrow> status option list \<Rightarrow> bool" where
  "lifecycle r [] = True"
| "lifecycle r (None # h) = lifecycle False h"
| "lifecycle r (Some Queued # h) = lifecycle r h"
| "lifecycle r (Some Running # h) = lifecycle True h"
| "lifecycle r (Some Done # h) = (r \<and> lifecycle r h)"
| "lifecycle r (Some Error # h) = (r \<and> lifecycle r h)"

text \<open>What a worker's place in the code says about the status of its job.\<close>

fun at_ok :: "job_table \<Rightarrow> wstate \<Rightarrow> bool" where
  "at_ok t Idle = True"
| "at_ok t (Got jid) = (status_of t jid = Some Queued)"
| "at_ok t (Started jid) = (status_of t jid = Some Running)"
| "at_ok t (Streaming jid) = (status_of t jid = Some Running)"
| "at_ok t (Finished jid) = (status_of t jid = None \<or> status_of t jid = Some Done)"
| "at_ok t Crashed = True"

text \<open>
  The states of the system that runs without a reused id reach: the keys of the table
  are distinct; an id
  is at one place only, among the calls of \<^verbatim>\<open>add_job\<close>, the queue and the workers; a
  job that waits there is queued; the job of a worker has the status of the worker's
  place; and the positions of the queued jobs are 1, 2, and so on in the order of the
  table.
\<close>

definition consistent :: "sys \<Rightarrow> bool" where
  "consistent s \<longleftrightarrow>
     distinct (map fst (jobs s))
   \<and> distinct (adding s @ job_queue s)
   \<and> (\<forall>jid \<in> set (adding s @ job_queue s).
        status_of (jobs s) jid = Some Queued \<and> Some jid \<notin> set (map job_of (workers s)))
   \<and> (\<forall>w < length (workers s). \<forall>w' < length (workers s).
        job_of (workers s ! w) \<noteq> None \<and> job_of (workers s ! w) = job_of (workers s ! w')
        \<longrightarrow> w = w')
   \<and> (\<forall>w < length (workers s). at_ok (jobs s) (workers s ! w))
   \<and> positions_ok (jobs s)"

text \<open>
  Two runs. In the first, of one worker, two jobs are added, the worker takes and starts
  \<^verbatim>\<open>j1\<close>, a third call of \<^verbatim>\<open>add_job\<close> draws the id \<^verbatim>\<open>j1\<close> again, and then the subprocess
  of the worker returns 0. In the second, of two workers, two jobs are added and queued,
  worker 0 takes the first, starts it, reads a progress line, the subprocess returns 0
  and the job is marked done, then the reconciliation raises (the data file is not JSON),
  and the finished jobs are cleared.
\<close>

definition ex_reuse_events :: "event list" where
  "ex_reuse_events =
     [Add ''j1'' ''p1'' ''v1'' ''t'' ''best'' False,
      Add ''j2'' ''p1'' ''v2'' ''t'' ''best'' False,
      Put ''j1'', Get 0, Start 0 1, Launch 0,
      Add ''j1'' ''p1'' ''v3'' ''t'' ''best'' False,
      Exit_Ok 0 (Some ''/dl/p1/t [v1].mp4'') 2]"

definition ex_events :: "event list" where
  "ex_events =
     [Add ''j1'' ''p1'' ''v1'' ''t'' ''best'' False,
      Add ''j2'' ''p1'' ''v2'' ''t'' ''best'' False,
      Put ''j1'', Put ''j2'', Get 0, Start 0 1, Launch 0,
      Line 0 ''[download]  42.5% of ~10.00MiB at 512.00KiB/s ETA 00:20'' 2,
      Exit_Ok 0 (Some ''/dl/p1/t [v1].mp4'') 3,
      Raise 0 (JSONDecodeError ''Expecting value'') 4,
      Clear]"

section \<open>Properties\<close>

subsection \<open>The rolling log\<close>

lemma job_log_line_update:
  "job_log (line_update line parsed j) = append_log line (job_log j)"
  by (simp add: line_update_def Let_def split: option.splits)

lemma append_log_last_n:
  "length lg \<le> 60 \<Longrightarrow> append_log line lg = last_n 60 (lg @ [line])"
  by (simp add: append_log_def last_n_def Let_def)

lemma length_last_n: "length (last_n n xs) \<le> n"
  by (simp add: last_n_def)

lemma last_n_append: "last_n n (last_n n xs @ ys) = last_n n (xs @ ys)"
proof (cases "length xs \<le> n")
  case True
  then show ?thesis by (simp add: last_n_def)
next
  case False
  define k where "k = length xs - n"
  have k: "k \<le> length xs" "length xs - k = n" "length xs + length ys - n = length ys + k"
    using False by (simp_all add: k_def)
  have "last_n n (drop k xs @ ys) = drop (length ys) (drop k xs @ ys)"
    using k by (simp add: last_n_def)
  also have "\<dots> = drop (length ys) (drop k (xs @ ys))"
    using k by simp
  also have "\<dots> = drop (length ys + k) (xs @ ys)"
    by (metis drop_drop add.commute)
  also have "\<dots> = last_n n (xs @ ys)"
    unfolding last_n_def length_append k(3) ..
  finally show ?thesis by (simp add: last_n_def k_def)
qed

lemma map_of_modify:
  assumes "map_of tbl jid = Some j"
  shows "\<exists>tbl'. modify jid f tbl = Inr tbl' \<and> map_of tbl' jid = Some (f j)
     \<and> (\<forall>k. k \<noteq> jid \<longrightarrow> map_of tbl' k = map_of tbl k)
     \<and> map fst tbl' = map fst tbl"
proof -
  have "jid \<in> fst ` set tbl"
    using assms by (metis domI dom_map_of_conv_image_fst)
  then have keys: "map fst (AList.update jid (f j) tbl) = map fst tbl"
    by (simp add: update_keys)
  have "modify jid f tbl = Inr (AList.update jid (f j) tbl)"
    using assms by (simp add: modify_def)
  moreover have "map_of (AList.update jid (f j) tbl) jid = Some (f j)"
    by (simp add: update_conv')
  moreover have "\<forall>k. k \<noteq> jid \<longrightarrow> map_of (AList.update jid (f j) tbl) k = map_of tbl k"
    by (simp add: update_conv')
  ultimately show ?thesis using keys by blast
qed

lemma stream_lines_log:
  "map_of tbl jid = Some j \<Longrightarrow> length (job_log j) \<le> 60 \<Longrightarrow>
   \<exists>j'. map_of (fst (snd (stream_lines raws jid (tbl, out)))) jid = Some j'
     \<and> job_log j' = last_n 60 (job_log j @ appended raws)"
proof (induction raws arbitrary: tbl j out)
  case Nil
  then show ?case by (simp add: appended_def last_n_def)
next
  case (Cons raw raws)
  show ?case
  proof (cases "parse_line (rstrip raw)")
    case (Inl e)
    with Cons.prems show ?thesis by (simp add: appended_def last_n_def)
  next
    case (Inr parsed)
    let ?j = "line_update (rstrip raw) parsed j"
    from map_of_modify [OF Cons.prems(1), of "line_update (rstrip raw) parsed"]
    obtain tbl' where m: "modify jid (line_update (rstrip raw) parsed) tbl = Inr tbl'"
      and j': "map_of tbl' jid = Some ?j" by blast
    have lg: "job_log ?j = last_n 60 (job_log j @ [rstrip raw])"
      using Cons.prems by (simp add: job_log_line_update append_log_last_n)
    then have "length (job_log ?j) \<le> 60" by (simp add: length_last_n)
    from Cons.IH [OF j' this, of "dest_update (rstrip raw) out"]
    obtain j'' where
      a: "map_of (fst (snd (stream_lines raws jid (tbl', dest_update (rstrip raw) out)))) jid
            = Some j''"
      and b: "job_log j'' = last_n 60 (job_log ?j @ appended raws)" by blast
    have "job_log j'' = last_n 60 (last_n 60 (job_log j @ [rstrip raw]) @ appended raws)"
      using b lg by simp
    also have "\<dots> = last_n 60 ((job_log j @ [rstrip raw]) @ appended raws)"
      by (rule last_n_append)
    finally have "job_log j'' = last_n 60 (job_log j @ appended (raw # raws))"
      using Inr by (simp add: appended_def)
    with a m Inr show ?thesis by simp
  qed
qed

text \<open>
  Claim C5. Whatever lines the subprocess prints, the log of the job after the loop is
  the last 60 (or fewer) of the lines appended so far, oldest first, and so never holds
  more than 60 entries. The log the loop starts from has at most 60 entries, as the empty
  log of a new job has; the statement holds for every output, hence after each line.
\<close>

theorem rolling_log_last_60:
  assumes "map_of tbl jid = Some j" and "length (job_log j) \<le> 60"
  shows "\<exists>j'. map_of (fst (snd (stream_lines raws jid (tbl, out)))) jid = Some j'
           \<and> job_log j' = last_n 60 (job_log j @ appended raws)
           \<and> length (job_log j') \<le> 60"
  using stream_lines_log [OF assms] by (metis length_last_n)

theorem rolling_log_last_60_witness:
  "map_of [(''j1'', (new_job ''j1'' ''p1'' ''v1'' ''t'' ''best'' False)
              \<lparr>job_log := replicate 60 ''old''\<rparr>)] ''j1'' =
     Some ((new_job ''j1'' ''p1'' ''v1'' ''t'' ''best'' False)\<lparr>job_log := replicate 60 ''old''\<rparr>)
   \<and> length (job_log ((new_job ''j1'' ''p1'' ''v1'' ''t'' ''best'' False)
             \<lparr>job_log := replicate 60 ''old''\<rparr>)) \<le> 60
   \<and> (\<exists>j'. map_of (fst (snd (stream_lines [''new  ''] ''j1''
          ([(''j1'', (new_job ''j1'' ''p1'' ''v1'' ''t'' ''best'' False)
              \<lparr>job_log := replicate 60 ''old''\<rparr>)], None)))) ''j1'' = Some j'
        \<and> job_log j' = replicate 59 ''old'' @ [''new''])"
proof -
  let ?j = "(new_job ''j1'' ''p1'' ''v1'' ''t'' ''best'' False)
              \<lparr>job_log := replicate 60 ''old''\<rparr>"
  have m: "map_of [(''j1'', ?j)] ''j1'' = Some ?j" by simp
  have len: "length (job_log ?j) \<le> 60" by simp
  have app: "appended [''new  ''] = [''new'']" by code_simp
  have l: "last_n 60 (replicate 60 ''old'' @ [''new'']) = replicate 59 ''old'' @ [''new'']"
    by code_simp
  from rolling_log_last_60 [OF m len, of "[''new  '']" None]
  obtain j' where
    a: "map_of (fst (snd (stream_lines [''new  ''] ''j1'' ([(''j1'', ?j)], None)))) ''j1''
          = Some j'"
    and b: "job_log j' = last_n 60 (job_log ?j @ appended [''new  ''])" by blast
  have "job_log j' = replicate 59 ''old'' @ [''new'']"
    unfolding b app using l by simp
  with a m len show ?thesis by blast
qed

subsection \<open>The progress parser\<close>

lemma parse_line_no_match:
  "re_search RE_PROGRESS line = None \<Longrightarrow> parse_line line = Inr None"
  by (simp add: parse_line_def)

text \<open>
  Claim C6. On the progress line of the specification \<^verbatim>\<open>parse_line\<close> returns the
  signal with percentage 42.5, size 10.00MiB, speed 512.00KiB/s and ETA 00:20; and on
  every line that matches neither \<^verbatim>\<open>_RE_PROGRESS\<close> nor \<^verbatim>\<open>_RE_DEST\<close>, such as
  "some unrelated line", it returns \<^verbatim>\<open>None\<close> and raises nothing.
\<close>

theorem parse_line_example:
  "parse_line ''[download]  42.5% of ~10.00MiB at 512.00KiB/s ETA 00:20'' =
     Inr (Some \<lparr>pct = 42.5, p_size = ''10.00MiB'', p_speed = ''512.00KiB/s'',
                p_eta = ''00:20''\<rparr>)
   \<and> (\<forall>line. re_search RE_PROGRESS line = None \<and> re_search RE_DEST line = None
         \<longrightarrow> parse_line line = Inr None)
   \<and> parse_line ''some unrelated line'' = Inr None"
proof (intro conjI allI impI)
  show "parse_line ''[download]  42.5% of ~10.00MiB at 512.00KiB/s ETA 00:20'' =
     Inr (Some \<lparr>pct = 42.5, p_size = ''10.00MiB'', p_speed = ''512.00KiB/s'',
                p_eta = ''00:20''\<rparr>)"
    by code_simp
  show "parse_line ''some unrelated line'' = Inr None"
    by code_simp
  show "parse_line line = Inr None"
    if "re_search RE_PROGRESS line = None \<and> re_search RE_DEST line = None" for line
    using that by (simp add: parse_line_no_match)
qed

theorem parse_line_example_witness:
  "re_search RE_PROGRESS ''some unrelated line'' = None
   \<and> re_search RE_DEST ''some unrelated line'' = None
   \<and> parse_line ''some unrelated line'' = Inr None"
proof -
  have a: "re_search RE_PROGRESS ''some unrelated line'' = None" by code_simp
  have b: "re_search RE_DEST ''some unrelated line'' = None" by code_simp
  from parse_line_example have
    "\<forall>line. re_search RE_PROGRESS line = None \<and> re_search RE_DEST line = None
       \<longrightarrow> parse_line line = Inr None" by blast
  with a b show ?thesis by blast
qed

text \<open>
  Claim C10. \<^verbatim>\<open>parse_line\<close> is not total: the first group of \<^verbatim>\<open>_RE_PROGRESS\<close> takes any
  run of digits and dots, and \<^verbatim>\<open>float\<close> raises \<^verbatim>\<open>ValueError\<close> on a run with two dots. On
  the line below the call raises instead of returning a signal or \<^verbatim>\<open>None\<close>.
\<close>

theorem parse_line_raises:
  "parse_line ''[download] 1.2.3% of 10MiB at 5KiB/s ETA 00:01'' =
     Inl (ValueError
       (''could not convert string to float: '' @ [CHR 0x27] @ ''1.2.3'' @ [CHR 0x27]))"
  by code_simp

subsection \<open>Phase classification\<close>

text \<open>
  Claim C7, as amended. The phase after a line is decided by these checks, the later
  ones overriding the earlier: when the line holds \<^verbatim>\<open>[download]\<close> in exactly this case,
  the phase becomes audio if the lower-cased line holds "audio", else video if it holds
  "video", else downloading if the line parsed as progress and the phase was starting or
  queued; when the lower-cased line holds \<^verbatim>\<open>[merger]\<close> the phase becomes merging, and
  when it holds \<^verbatim>\<open>[extractaudio]\<close> converting, in both cases with progress 99 and speed
  and ETA cleared. Otherwise the phase stays as it was.
\<close>

theorem phase_after_line:
  "phase (line_update line parsed j) =
     (if contains ''[extractaudio]'' (lower line) then Ph_converting
      else if contains ''[merger]'' (lower line) then Ph_merging
      else if contains ''[download]'' line \<and> contains ''audio'' (lower line) then Ph_audio
      else if contains ''[download]'' line \<and> contains ''video'' (lower line) then Ph_video
      else if contains ''[download]'' line \<and> parsed \<noteq> None
              \<and> (phase j = Ph_starting \<or> phase j = Ph_queued) then Ph_downloading
      else phase j)
   \<and> (contains ''[merger]'' (lower line) \<or> contains ''[extractaudio]'' (lower line)
        \<longrightarrow> progress (line_update line parsed j) = 99
            \<and> speed (line_update line parsed j) = []
            \<and> eta (line_update line parsed j) = [])"
  by (simp add: line_update_def Let_def split: option.splits)

theorem phase_after_line_witness:
  "contains ''[merger]'' (lower ''[Merger] Merging formats into x.mp4'')
   \<and> phase (line_update ''[Merger] Merging formats into x.mp4'' None
        (new_job ''j1'' ''p1'' ''v1'' ''t'' ''best'' False)) = Ph_merging
   \<and> progress (line_update ''[Merger] Merging formats into x.mp4'' None
        (new_job ''j1'' ''p1'' ''v1'' ''t'' ''best'' False)) = 99"
proof -
  have m: "contains ''[merger]'' (lower ''[Merger] Merging formats into x.mp4'')"
    by code_simp
  have x: "\<not> contains ''[extractaudio]'' (lower ''[Merger] Merging formats into x.mp4'')"
    by code_simp
  from phase_after_line [of "''[Merger] Merging formats into x.mp4''" None
      "new_job ''j1'' ''p1'' ''v1'' ''t'' ''best'' False"] m x
  show ?thesis by simp
qed

text \<open>
  The claim as stated fails twice. The check for \<^verbatim>\<open>[download]\<close> reads the line as it
  is, not lower-cased: a line with \<^verbatim>\<open>[DOWNLOAD]\<close> and "audio" leaves the phase at
  starting. And a plain progress line does not set the phase to downloading when the
  phase is already audio.
\<close>

theorem phase_claim_counterexample:
  "contains ''[download]'' (lower ''[DOWNLOAD] audio'')
   \<and> contains ''audio'' (lower ''[DOWNLOAD] audio'')
   \<and> phase (line_update ''[DOWNLOAD] audio'' None
        ((new_job ''j1'' ''p1'' ''v1'' ''t'' ''best'' False)\<lparr>phase := Ph_starting\<rparr>))
       = Ph_starting
   \<and> parse_line ''[download]  42.5% of ~10.00MiB at 512.00KiB/s ETA 00:20'' =
        Inr (Some \<lparr>pct = 42.5, p_size = ''10.00MiB'', p_speed = ''512.00KiB/s'',
                   p_eta = ''00:20''\<rparr>)
   \<and> phase (line_update ''[download]  42.5% of ~10.00MiB at 512.00KiB/s ETA 00:20''
        (Some \<lparr>pct = 42.5, p_size = ''10.00MiB'', p_speed = ''512.00KiB/s'',
                p_eta = ''00:20''\<rparr>)
        ((new_job ''j1'' ''p1'' ''v1'' ''t'' ''best'' False)\<lparr>phase := Ph_audio\<rparr>))
       = Ph_audio"
  by code_simp

subsection \<open>Loading the catalog\<close>

text \<open>
  Claim C8, as amended. \<^verbatim>\<open>load_data\<close> returns the empty catalog (no playlists, the
  default settings) when the data file does not exist. When the file exists it returns
  what \<^verbatim>\<open>json.load\<close> returns, and an error raised while opening or decoding the file
  leaves \<^verbatim>\<open>load_data\<close> as it is.
\<close>

theorem load_data_cases:
  "load_data dd Absent =
     Inr \<lparr>playlists = [], settings = \<lparr>download_dir = dd, threads = 3\<rparr>\<rparr>
   \<and> load_data dd (Present (Inl e)) = Inl e
   \<and> load_data dd (Present (Inr c)) = Inr c"
  by (simp add: load_data_def empty_catalog_def DEFAULT_THREADS_def)

text \<open>The claim as stated fails on a file that is not JSON: the call raises.\<close>

theorem load_data_counterexample:
  "load_data ''/dl''
     (Present (Inl (JSONDecodeError ''Expecting value: line 1 column 1 (char 0)''))) =
     Inl (JSONDecodeError ''Expecting value: line 1 column 1 (char 0)'')
   \<and> load_data ''/dl''
     (Present (Inl (JSONDecodeError ''Expecting value: line 1 column 1 (char 0)''))) \<noteq>
     Inr (empty_catalog ''/dl'')"
  by (simp add: load_data_def)

subsection \<open>Jobs that are done and the catalog\<close>

lemma fetch_videos_ok: "list_all video_ok (fetch_videos es)"
  by (induction es rule: fetch_videos.induct)
     (simp_all add: video_ok_def video_of_entry_def)

lemma delete_files_ok:
  "list_all video_ok vs \<Longrightarrow> list_all video_ok (delete_files video_ids vs)"
  by (induction vs) (simp_all add: delete_files_def delete_file_def video_ok_def)

lemma mark_downloaded_ok:
  "list_all video_ok vs \<Longrightarrow> list_all video_ok (mark_downloaded vid (Some p) q ao vs)"
  by (induction vs) (simp_all add: video_ok_def)

lemma reconcile_playlist_gone:
  "load_data dd f = Inr data \<Longrightarrow> map_of tbl jid = Some j \<Longrightarrow>
   map_of (playlists data) (playlist_id j) = None \<Longrightarrow> reconcile dd jid tbl out f = Inr f"
  by (simp add: reconcile_def)

lemma mark_downloaded_first:
  "find (\<lambda>v. v_id v = vid) vs = Some v \<Longrightarrow>
   find (\<lambda>v. v_id v = vid) (mark_downloaded vid out q ao vs) =
     Some (v\<lparr>downloaded := True, file_path := out, v_quality := Some q,
             v_audio_only := Some ao\<rparr>)"
  by (induction vs) (auto split: if_splits)

text \<open>
  Claim C1. The run below ends with return code 0, so the job is marked done; no
  destination line was printed and no file in the output directory has one of the five
  media suffixes, so the job's file is \<^verbatim>\<open>None\<close>, against the claim that the file path of
  a done job is never null. The Video is marked downloaded with the same null path.
\<close>

theorem done_job_without_file:
  "fst (run_job ''/dl'' ex_env ''j1'' ex_jobs (Present (Inr ex_catalog))) = None
   \<and> map_option (\<lambda>j. (status j, j_file j))
       (map_of (fst (snd (run_job ''/dl'' ex_env ''j1'' ex_jobs (Present (Inr ex_catalog)))))
          ''j1'') = Some (Done, None)
   \<and> map (\<lambda>v. (v_id v, downloaded v, file_path v))
       (videos_in ''p1''
          (snd (snd (run_job ''/dl'' ex_env ''j1'' ex_jobs (Present (Inr ex_catalog)))))) =
     [(''v1'', True, None)]"
  by code_simp

text \<open>
  Claim C2. The playlist fetch and the file deletion keep the invariant
  (\<open>fetch_videos_ok\<close>, \<open>delete_files_ok\<close>), and so does the reconciliation when the job has
  a file path (\<open>mark_downloaded_ok\<close>). When the job is done without one, the
  reconciliation breaks it: the catalog below satisfies the invariant before and not
  after.
\<close>

theorem reconcile_breaks_invariant:
  "catalog_ok ex_catalog
   \<and> reconcile ''/dl'' ''j1''
        [(''j1'', (new_job ''j1'' ''p1'' ''v1'' ''t'' ''best'' False)\<lparr>status := Done\<rparr>)]
        None (Present (Inr ex_catalog)) =
      Inr (Present (Inr (ex_catalog\<lparr>playlists :=
        [(''p1'', \<lparr>pl_id = ''p1'', pl_url = ''u'', pl_title = ''P'',
                   videos = [ex_video\<lparr>downloaded := True, v_quality := Some ''best'',
                                       v_audio_only := Some False\<rparr>],
                   added = 0, synced = 0\<rparr>)]\<rparr>)))
   \<and> \<not> catalog_ok (ex_catalog\<lparr>playlists :=
        [(''p1'', \<lparr>pl_id = ''p1'', pl_url = ''u'', pl_title = ''P'',
                   videos = [ex_video\<lparr>downloaded := True, v_quality := Some ''best'',
                                       v_audio_only := Some False\<rparr>],
                   added = 0, synced = 0\<rparr>)]\<rparr>)"
  by (simp add: catalog_ok_def video_ok_def ex_catalog_def ex_video_def reconcile_def
      load_data_def save_data_def new_job_def)

subsection \<open>The worker loop\<close>




subsection \<open>The job table\<close>

lemma status_of_update:
  "status_of (AList.update k v t) = (status_of t)(k := Some (status v))"
  by (rule ext) (simp add: status_of_def update_conv')

lemma status_of_Cons:
  "status_of ((k, j) # t) k' = (if k' = k then Some (status j) else status_of t k')"
  by (simp add: status_of_def)

lemma renumber_keys: "map fst (renumber p t) = map fst t"
  by (induction p t rule: renumber.induct) simp_all

lemma renumber_status: "status_of (renumber p t) k = status_of t k"
  by (induction p t rule: renumber.induct) (simp_all add: status_of_def)

lemma renumber_positions:
  "queued_positions (renumber p t) = [p ..< p + length (queued_positions t)]"
proof (induction p t rule: renumber.induct)
  case (1 pos)
  show ?case by (simp add: queued_positions_def)
next
  case (2 pos k j r)
  show ?case
  proof (cases "status j = Queued")
    case True
    define n where "n = length (queued_positions r)"
    have "queued_positions (renumber pos ((k, j) # r)) =
        pos # queued_positions (renumber (pos + 1) r)"
      using True by (simp add: queued_positions_def)
    also have "\<dots> = pos # [Suc pos ..< Suc (pos + n)]"
      using 2(1) [OF True] by (simp add: n_def)
    also have "\<dots> = [pos ..< Suc (pos + n)]"
      by (rule upt_conv_Cons [symmetric]) simp
    also have "Suc (pos + n) = pos + length (queued_positions ((k, j) # r))"
      using True by (simp add: queued_positions_def n_def)
    finally show ?thesis .
  next
    case False
    then show ?thesis using 2(2) by (simp add: queued_positions_def)
  qed
qed

lemma renumber_positions_ok: "positions_ok (renumber 1 t)"
proof -
  define n where "n = length (queued_positions t)"
  have a: "queued_positions (renumber 1 t) = [1 ..< Suc n]"
    by (simp only: renumber_positions n_def plus_1_eq_Suc)
  then have "length (queued_positions (renumber 1 t)) = n" by simp
  with a show ?thesis by (simp only: positions_ok_def)
qed

lemma positions_update:
  "map_of t k = Some j \<Longrightarrow> status j \<noteq> Queued \<Longrightarrow> status j' \<noteq> Queued \<Longrightarrow>
   queued_positions (AList.update k j' t) = queued_positions t"
  by (induction t) (auto simp add: queued_positions_def split: if_splits)

lemma positions_clear: "queued_positions (clear_jobs t) = queued_positions t"
  by (induction t) (auto simp add: queued_positions_def clear_jobs_def)

lemma keys_clear: "distinct (map fst t) \<Longrightarrow> distinct (map fst (clear_jobs t))"
  by (simp add: clear_jobs_def distinct_map_filter)

lemma status_clear:
  "distinct (map fst t) \<Longrightarrow>
   status_of (clear_jobs t) k =
     (if status_of t k = Some Done \<or> status_of t k = Some Error then None else status_of t k)"
proof (induction t)
  case Nil
  show ?case by (simp add: status_of_def clear_jobs_def)
next
  case (Cons a t)
  obtain k' j where a: "a = (k', j)" by (cases a)
  from Cons.prems a have d: "distinct (map fst t)" and n: "k' \<notin> fst ` set t" by simp_all
  from n have none: "status_of t k' = None" "status_of (clear_jobs t) k' = None"
    by (auto simp add: status_of_def clear_jobs_def map_of_eq_None_iff)
  have c: "clear_jobs ((k', j) # t) =
      (if status j \<noteq> Done \<and> status j \<noteq> Error then (k', j) # clear_jobs t else clear_jobs t)"
    by (simp add: clear_jobs_def)
  show ?case
  proof (cases "k = k'")
    case True
    with none show ?thesis unfolding a c by (simp add: status_of_Cons)
  next
    case False
    with Cons.IH [OF d] show ?thesis unfolding a c by (simp add: status_of_Cons)
  qed
qed

lemma update_fresh: "k \<notin> fst ` set t \<Longrightarrow> AList.update k v t = t @ [(k, v)]"
  by (induction t) auto

lemma positions_append:
  "queued_positions (t @ u) = queued_positions t @ queued_positions u"
  by (simp add: queued_positions_def)

lemma status_line_update: "status (line_update line parsed j) = status j"
  by (simp add: line_update_def Let_def split: option.splits)

lemma modify_Inr:
  assumes "modify jid f t = Inr t'"
  shows "\<exists>j. map_of t jid = Some j \<and> t' = AList.update jid (f j) t
           \<and> map fst t' = map fst t"
proof -
  from assms obtain j where j: "map_of t jid = Some j" and t': "t' = AList.update jid (f j) t"
    by (auto simp add: modify_def split: option.splits)
  from j have "jid \<in> fst ` set t" by (metis domI dom_map_of_conv_image_fst)
  then have "map fst (AList.update jid (f j) t) = map fst t" by (simp add: update_keys)
  with j t' show ?thesis by blast
qed

lemma modify_Inl: "modify jid f t = Inl e \<Longrightarrow> status_of t jid = None"
  by (auto simp add: modify_def status_of_def split: option.splits)

subsection \<open>Events keep the system consistent\<close>

lemma at_ok_cong:
  "(\<And>k. job_of y = Some k \<Longrightarrow> status_of t' k = status_of t k) \<Longrightarrow> at_ok t' y = at_ok t y"
  by (cases y) simp_all

lemma held_index:
  "Some jid \<in> set (map job_of ws) \<longleftrightarrow> (\<exists>w < length ws. job_of (ws ! w) = Some jid)"
proof
  assume "Some jid \<in> set (map job_of ws)"
  then obtain y where "y \<in> set ws" "job_of y = Some jid" by auto
  then show "\<exists>w < length ws. job_of (ws ! w) = Some jid"
    by (metis in_set_conv_nth)
next
  assume "\<exists>w < length ws. job_of (ws ! w) = Some jid"
  then obtain w where "w < length ws" "job_of (ws ! w) = Some jid" by blast
  then have "ws ! w \<in> set ws" "job_of (ws ! w) = Some jid" by simp_all
  then show "Some jid \<in> set (map job_of ws)" by (metis image_eqI set_map)
qed

lemma consistentI:
  assumes "distinct (map fst (jobs s))" and "distinct (adding s @ job_queue s)"
    and "\<And>k. k \<in> set (adding s @ job_queue s) \<Longrightarrow>
           status_of (jobs s) k = Some Queued \<and> Some k \<notin> set (map job_of (workers s))"
    and "\<And>a b. a < length (workers s) \<Longrightarrow> b < length (workers s) \<Longrightarrow>
           job_of (workers s ! a) \<noteq> None \<Longrightarrow>
           job_of (workers s ! a) = job_of (workers s ! b) \<Longrightarrow> a = b"
    and "\<And>a. a < length (workers s) \<Longrightarrow> at_ok (jobs s) (workers s ! a)"
    and "positions_ok (jobs s)"
  shows "consistent s"
  unfolding consistent_def using assms by blast

lemma consistentD:
  assumes "consistent s"
  shows "distinct (map fst (jobs s))" and "distinct (adding s @ job_queue s)"
    and "\<And>k. k \<in> set (adding s @ job_queue s) \<Longrightarrow>
           status_of (jobs s) k = Some Queued \<and> Some k \<notin> set (map job_of (workers s))"
    and "\<And>a b. a < length (workers s) \<Longrightarrow> b < length (workers s) \<Longrightarrow>
           job_of (workers s ! a) \<noteq> None \<Longrightarrow>
           job_of (workers s ! a) = job_of (workers s ! b) \<Longrightarrow> a = b"
    and "\<And>a. a < length (workers s) \<Longrightarrow> at_ok (jobs s) (workers s ! a)"
    and "positions_ok (jobs s)"
  using assms unfolding consistent_def by blast+

lemma worker_step:
  assumes c: "consistent s" and w: "w < length (workers s)"
    and j: "job_of (workers s ! w) = Some jid"
    and keys: "map fst t' = map fst (jobs s)"
    and others: "\<And>k. k \<noteq> jid \<Longrightarrow> status_of t' k = status_of (jobs s) k"
    and pos: "positions_ok t'" and at: "at_ok t' x"
    and jx: "job_of x = Some jid \<or> job_of x = None"
  shows "consistent (s\<lparr>jobs := t', workers := (workers s)[w := x]\<rparr>)"
proof -
  let ?ws = "workers s" and ?ws' = "(workers s)[w := x]"
  note d1 = consistentD(1) [OF c] and d2 = consistentD(2) [OF c]
    and q = consistentD(3) [OF c] and u = consistentD(4) [OF c]
    and a = consistentD(5) [OF c]
  have held: "Some jid \<in> set (map job_of ?ws)"
    using w j held_index [of jid "workers s"] by blast
  have q': "status_of t' k = Some Queued \<and> Some k \<notin> set (map job_of ?ws')"
    if k: "k \<in> set (adding s @ job_queue s)" for k
  proof -
    from q [OF k] held have ne: "k \<noteq> jid" by auto
    have "Some k \<notin> set (map job_of ?ws')"
    proof
      assume "Some k \<in> set (map job_of ?ws')"
      then obtain b where b: "b < length ?ws'" "job_of (?ws' ! b) = Some k"
        using held_index [of k "?ws'"] by blast
      show False
      proof (cases "b = w")
        case True
        with b w jx ne show False by auto
      next
        case False
        with b have "b < length ?ws" "job_of (?ws ! b) = Some k" by simp_all
        then have "Some k \<in> set (map job_of ?ws)"
          using held_index [of k ?ws] by blast
        with q [OF k] show False by simp
      qed
    qed
    with q [OF k] others [OF ne] show ?thesis by simp
  qed
  have u': "a = b" if "a < length ?ws'" "b < length ?ws'" "job_of (?ws' ! a) \<noteq> None"
    "job_of (?ws' ! a) = job_of (?ws' ! b)" for a b
  proof (cases "a = w"; cases "b = w")
    assume "a = w" "b = w" then show ?thesis by simp
  next
    assume ab: "a = w" "b \<noteq> w"
    with that w jx j have "job_of (?ws ! b) = job_of (?ws ! w)" by auto
    with u [of w b] that ab w j show ?thesis by simp
  next
    assume ab: "a \<noteq> w" "b = w"
    with that w jx j have "job_of (?ws ! a) = job_of (?ws ! w)" by auto
    with u [of a w] that ab w j show ?thesis by simp
  next
    assume ab: "a \<noteq> w" "b \<noteq> w"
    with u [of a b] that show ?thesis by simp
  qed
  have a': "at_ok t' (?ws' ! b)" if b: "b < length ?ws'" for b
  proof (cases "b = w")
    case True
    with w at show ?thesis by simp
  next
    case False
    have "at_ok t' (?ws ! b) = at_ok (jobs s) (?ws ! b)"
    proof (rule at_ok_cong)
      fix k assume k: "job_of (?ws ! b) = Some k"
      have "k \<noteq> jid"
      proof
        assume "k = jid"
        with k j u [of b w] b w False show False by simp
      qed
      then show "status_of t' k = status_of (jobs s) k" by (rule others)
    qed
    with a [of b] b False show ?thesis by simp
  qed
  show ?thesis
  proof (rule consistentI)
    show "distinct (map fst (jobs (s\<lparr>jobs := t', workers := ?ws'\<rparr>)))"
      using d1 keys by simp
    show "distinct (adding (s\<lparr>jobs := t', workers := ?ws'\<rparr>)
        @ job_queue (s\<lparr>jobs := t', workers := ?ws'\<rparr>))"
      using d2 by simp
    show "positions_ok (jobs (s\<lparr>jobs := t', workers := ?ws'\<rparr>))"
      using pos by simp
  next
    fix k
    assume "k \<in> set (adding (s\<lparr>jobs := t', workers := ?ws'\<rparr>)
        @ job_queue (s\<lparr>jobs := t', workers := ?ws'\<rparr>))"
    then have "k \<in> set (adding s @ job_queue s)" by simp
    from q' [OF this]
    show "status_of (jobs (s\<lparr>jobs := t', workers := ?ws'\<rparr>)) k = Some Queued
        \<and> Some k \<notin> set (map job_of (workers (s\<lparr>jobs := t', workers := ?ws'\<rparr>)))"
      by simp
  next
    fix a b
    assume "a < length (workers (s\<lparr>jobs := t', workers := ?ws'\<rparr>))"
      "b < length (workers (s\<lparr>jobs := t', workers := ?ws'\<rparr>))"
      "job_of (workers (s\<lparr>jobs := t', workers := ?ws'\<rparr>) ! a) \<noteq> None"
      "job_of (workers (s\<lparr>jobs := t', workers := ?ws'\<rparr>) ! a) =
       job_of (workers (s\<lparr>jobs := t', workers := ?ws'\<rparr>) ! b)"
    then have "a < length ?ws'" "b < length ?ws'" "job_of (?ws' ! a) \<noteq> None"
      "job_of (?ws' ! a) = job_of (?ws' ! b)" by simp_all
    then show "a = b" by (rule u')
  next
    fix a
    assume "a < length (workers (s\<lparr>jobs := t', workers := ?ws'\<rparr>))"
    then have "a < length ?ws'" by simp
    from a' [OF this]
    show "at_ok (jobs (s\<lparr>jobs := t', workers := ?ws'\<rparr>))
        (workers (s\<lparr>jobs := t', workers := ?ws'\<rparr>) ! a)" by simp
  qed
qed

lemma trans_ok_refl: "trans_ok a a"
proof (cases a)
  case None
  then show ?thesis by simp
next
  case (Some st)
  then show ?thesis by (cases st) simp_all
qed

lemma trans_ok_fail:
  "a \<noteq> Some Queued \<Longrightarrow> trans_ok a (if a = None then None else Some Error)"
proof (cases a)
  case None
  then show ?thesis by simp
next
  case (Some st)
  assume "a \<noteq> Some Queued"
  with Some show ?thesis by (cases st) simp_all
qed

lemma modify_effect:
  assumes "modify jid f t = Inr t'"
  shows "\<exists>j. map_of t jid = Some j \<and> map fst t' = map fst t
           \<and> status_of t jid = Some (status j)
           \<and> status_of t' = (status_of t)(jid := Some (status (f j)))
           \<and> (status j \<noteq> Queued \<longrightarrow> status (f j) \<noteq> Queued
                \<longrightarrow> queued_positions t' = queued_positions t)"
proof -
  from modify_Inr [OF assms] obtain j where j: "map_of t jid = Some j"
    and t': "t' = AList.update jid (f j) t" and k: "map fst t' = map fst t" by blast
  have "status_of t jid = Some (status j)" using j by (simp add: status_of_def)
  moreover have "status_of t' = (status_of t)(jid := Some (status (f j)))"
    unfolding t' by (rule status_of_update)
  moreover have "queued_positions t' = queued_positions t"
    if "status j \<noteq> Queued" "status (f j) \<noteq> Queued"
    unfolding t' using j that by (rule positions_update)
  ultimately show ?thesis using j k by blast
qed

lemma set_error_effect:
  "(\<exists>t'. set_error msg now jid t = Inr t' \<and> status_of t jid \<noteq> None
      \<and> map fst t' = map fst t
      \<and> status_of t' = (status_of t)(jid := Some Error)
      \<and> (status_of t jid \<noteq> Some Queued \<longrightarrow> queued_positions t' = queued_positions t))
   \<or> (\<exists>e. set_error msg now jid t = Inl e \<and> status_of t jid = None)"
proof (cases "set_error msg now jid t")
  case (Inl e)
  then show ?thesis by (auto simp add: set_error_def dest: modify_Inl)
next
  case (Inr t')
  from modify_effect [OF Inr [unfolded set_error_def]] Inr
  show ?thesis by auto
qed

lemma worker_except_effect:
  "\<exists>t'. worker_except e now jid t = Inr t' \<and> map fst t' = map fst t
     \<and> status_of t' = (status_of t)(jid := (if status_of t jid = None then None else Some Error))
     \<and> (status_of t jid \<noteq> Some Queued \<longrightarrow> queued_positions t' = queued_positions t)"
proof (cases "jid \<in> set (map fst t)")
  case False
  then have "status_of t jid = None" by (simp add: status_of_def map_of_eq_None_iff)
  with False show ?thesis by (auto simp add: worker_except_def)
next
  case True
  then have n: "status_of t jid \<noteq> None"
    by (simp add: status_of_def map_of_eq_None_iff)
  with set_error_effect [of "py_str e" now jid t] True
  show ?thesis by (auto simp add: worker_except_def)
qed

lemma fail_outside_workers:
  "workers (fail_outside w jid e now s) = (workers s)[w := Idle]"
proof -
  from worker_except_effect [of e now jid "jobs s"]
  obtain t' where "worker_except e now jid (jobs s) = Inr t'" by blast
  then show ?thesis by (simp add: fail_outside_def)
qed


lemma fail_outside_step:
  assumes c: "consistent s" and w: "w < length (workers s)"
    and j: "job_of (workers s ! w) = Some jid"
    and nq: "status_of (jobs s) jid \<noteq> Some Queued"
  shows "consistent (fail_outside w jid e now s)
     \<and> (\<forall>k. trans_ok (status_of (jobs s) k) (status_of (jobs (fail_outside w jid e now s)) k))"
proof -
  from worker_except_effect [of e now jid "jobs s"] nq
  obtain t' where r: "worker_except e now jid (jobs s) = Inr t'"
    and k: "map fst t' = map fst (jobs s)"
    and st: "status_of t' = (status_of (jobs s))
        (jid := (if status_of (jobs s) jid = None then None else Some Error))"
    and p: "queued_positions t' = queued_positions (jobs s)" by blast
  have f: "fail_outside w jid e now s = s\<lparr>jobs := t', workers := (workers s)[w := Idle]\<rparr>"
    using r by (simp add: fail_outside_def)
  have "positions_ok t'"
    using consistentD(6) [OF c] p by (simp add: positions_ok_def)
  then have "consistent (s\<lparr>jobs := t', workers := (workers s)[w := Idle]\<rparr>)"
    using st k by (intro worker_step [OF c w j]) simp_all
  moreover have "trans_ok (status_of (jobs s) k) (status_of t' k)" for k
    using trans_ok_fail [OF nq] by (simp add: st trans_ok_refl)
  ultimately show ?thesis unfolding f by simp
qed

lemma fail_inside_step:
  assumes c: "consistent s" and w: "w < length (workers s)"
    and j: "job_of (workers s ! w) = Some jid"
    and nq: "status_of (jobs s) jid \<noteq> Some Queued"
  shows "consistent (fail_inside w jid e now s)
     \<and> (\<forall>k. trans_ok (status_of (jobs s) k) (status_of (jobs (fail_inside w jid e now s)) k))"
proof -
  from set_error_effect [of "py_str e" now jid "jobs s"]
  consider t' where "set_error (py_str e) now jid (jobs s) = Inr t'"
      "status_of (jobs s) jid \<noteq> None" "map fst t' = map fst (jobs s)"
      "status_of t' = (status_of (jobs s))(jid := Some Error)"
      "queued_positions t' = queued_positions (jobs s)"
    | e' where "set_error (py_str e) now jid (jobs s) = Inl e'"
    using nq by blast
  then show ?thesis
  proof cases
    case 1
    have f: "fail_inside w jid e now s = s\<lparr>jobs := t', workers := (workers s)[w := Idle]\<rparr>"
      using 1(1) by (simp add: fail_inside_def)
    have "positions_ok t'"
      using consistentD(6) [OF c] 1(5) by (simp add: positions_ok_def)
    then have "consistent (s\<lparr>jobs := t', workers := (workers s)[w := Idle]\<rparr>)"
      using 1 by (intro worker_step [OF c w j]) simp_all
    moreover have "trans_ok (status_of (jobs s) k) (status_of t' k)" for k
      using trans_ok_fail [OF nq] 1(2) by (simp add: 1(4) trans_ok_refl)
    ultimately show ?thesis unfolding f by simp
  next
    case 2
    then have "fail_inside w jid e now s = fail_outside w jid e' now s"
      by (simp add: fail_inside_def)
    with fail_outside_step [OF c w j nq] show ?thesis by simp
  qed
qed

lemma worker_atD:
  "worker_at s w = Some st \<Longrightarrow> w < length (workers s) \<and> workers s ! w = st"
  by (simp add: worker_at_def split: if_splits)

lemma modify_step:
  assumes c: "consistent s" and w: "w < length (workers s)"
    and j: "job_of (workers s ! w) = Some jid"
    and m: "modify jid f (jobs s) = Inr t'"
    and a: "status_of (jobs s) jid = Some a" "a \<noteq> Queued"
    and fb: "\<And>j. status j = a \<Longrightarrow> status (f j) = b" "b \<noteq> Queued"
    and tr: "trans_ok (Some a) (Some b)"
    and x: "\<And>t. status_of t jid = Some b \<Longrightarrow> at_ok t x"
    and jx: "job_of x = Some jid \<or> job_of x = None"
  shows "consistent (s\<lparr>jobs := t', workers := (workers s)[w := x]\<rparr>)
     \<and> (\<forall>k. trans_ok (status_of (jobs s) k) (status_of t' k))"
proof -
  from modify_effect [OF m] obtain j0 where k: "map fst t' = map fst (jobs s)"
    and s0: "status_of (jobs s) jid = Some (status j0)"
    and st: "status_of t' = (status_of (jobs s))(jid := Some (status (f j0)))"
    and p: "status j0 \<noteq> Queued \<longrightarrow> status (f j0) \<noteq> Queued
              \<longrightarrow> queued_positions t' = queued_positions (jobs s)" by blast
  from s0 a have ja: "status j0 = a" by simp
  with fb have jb: "status (f j0) = b" by simp
  from p ja jb a fb have "queued_positions t' = queued_positions (jobs s)" by simp
  then have "positions_ok t'"
    using consistentD(6) [OF c] by (simp add: positions_ok_def)
  moreover have "at_ok t' x" by (rule x) (simp add: st jb)
  ultimately have "consistent (s\<lparr>jobs := t', workers := (workers s)[w := x]\<rparr>)"
    using k st jx by (intro worker_step [OF c w j]) simp_all
  moreover have "trans_ok (status_of (jobs s) k) (status_of t' k)" for k
    using tr a by (simp add: st jb trans_ok_refl)
  ultimately show ?thesis by simp
qed

lemma start_step:
  assumes c: "consistent s" and w: "w < length (workers s)"
    and g: "workers s ! w = Got jid"
  shows "\<exists>t'. start_job now jid (jobs s) = Inr t'
     \<and> consistent (s\<lparr>jobs := t', workers := (workers s)[w := Started jid]\<rparr>)
     \<and> (\<forall>k. trans_ok (status_of (jobs s) k) (status_of t' k))"
proof -
  let ?f = "\<lambda>j. j\<lparr>status := Running, started := Some now, phase := Ph_starting\<rparr>"
  from consistentD(5) [OF c w] g have q: "status_of (jobs s) jid = Some Queued" by simp
  then obtain j0 where "map_of (jobs s) jid = Some j0" by (auto simp add: status_of_def)
  then obtain t1 where m: "modify jid ?f (jobs s) = Inr t1"
    by (auto simp add: modify_def)
  from modify_effect [OF m] have k: "map fst t1 = map fst (jobs s)"
    and st: "status_of t1 = (status_of (jobs s))(jid := Some Running)" by auto
  let ?t = "update_queue_positions t1"
  have r: "start_job now jid (jobs s) = Inr ?t" using m by (simp add: start_job_def)
  have st': "status_of ?t k = ((status_of (jobs s))(jid := Some Running)) k" for k
    by (simp add: update_queue_positions_def renumber_status st)
  have "consistent (s\<lparr>jobs := ?t, workers := (workers s)[w := Started jid]\<rparr>)"
  proof (rule worker_step [OF c w])
    show "job_of (workers s ! w) = Some jid" using g by simp
    show "map fst ?t = map fst (jobs s)"
      using k by (simp add: update_queue_positions_def renumber_keys)
    show "positions_ok ?t"
      unfolding update_queue_positions_def by (rule renumber_positions_ok)
    show "at_ok ?t (Started jid)" by (simp add: st')
    show "status_of ?t k = status_of (jobs s) k" if "k \<noteq> jid" for k
      using that by (simp add: st')
  qed simp
  moreover have "trans_ok (status_of (jobs s) k) (status_of ?t k)" for k
    using q by (simp add: st' trans_ok_refl)
  ultimately show ?thesis using r by blast
qed

lemma idle_step:
  assumes c: "consistent s" and w: "w < length (workers s)"
    and j: "job_of (workers s ! w) = Some jid"
    and x: "at_ok (jobs s) x" and jx: "job_of x = Some jid \<or> job_of x = None"
  shows "consistent (s\<lparr>workers := (workers s)[w := x]\<rparr>)"
proof -
  have "consistent (s\<lparr>jobs := jobs s, workers := (workers s)[w := x]\<rparr>)"
    using consistentD(6) [OF c] x jx by (intro worker_step [OF c w j]) simp_all
  then show ?thesis by simp
qed

lemma get_step:
  assumes c: "consistent s" and w: "w < length (workers s)"
    and i: "workers s ! w = Idle" and q: "job_queue s = jid # q"
  shows "consistent (s\<lparr>job_queue := q, workers := (workers s)[w := Got jid]\<rparr>)"
proof -
  let ?ws = "workers s" and ?ws' = "(workers s)[w := Got jid]"
  let ?s' = "s\<lparr>job_queue := q, workers := ?ws'\<rparr>"
  note d2 = consistentD(2) [OF c] and qs = consistentD(3) [OF c]
    and u = consistentD(4) [OF c] and a = consistentD(5) [OF c]
  have jq: "jid \<in> set (adding s @ job_queue s)" using q by simp
  have nh: "job_of (?ws ! b) \<noteq> Some k" if "b < length ?ws" "k \<in> set (adding s @ job_queue s)"
    for b k
    using qs [OF that(2)] that(1) held_index [of k ?ws] by blast
  show ?thesis
  proof (rule consistentI)
    show "distinct (map fst (jobs ?s'))" using consistentD(1) [OF c] by simp
    show "distinct (adding ?s' @ job_queue ?s')" using d2 q by simp
    show "positions_ok (jobs ?s')" using consistentD(6) [OF c] by simp
  next
    fix k assume "k \<in> set (adding ?s' @ job_queue ?s')"
    then have k: "k \<in> set (adding s @ job_queue s)" and ne: "k \<noteq> jid"
      using d2 q by auto
    have "Some k \<notin> set (map job_of ?ws')"
    proof
      assume "Some k \<in> set (map job_of ?ws')"
      then obtain b where b: "b < length ?ws'" "job_of (?ws' ! b) = Some k"
        using held_index [of k ?ws'] by blast
      show False
      proof (cases "b = w")
        case True
        with b w ne show False by simp
      next
        case False
        with b nh [of b k] k show False by simp
      qed
    qed
    with qs [OF k]
    show "status_of (jobs ?s') k = Some Queued \<and> Some k \<notin> set (map job_of (workers ?s'))"
      by simp
  next
    fix a b
    assume "a < length (workers ?s')" "b < length (workers ?s')"
      "job_of (workers ?s' ! a) \<noteq> None" "job_of (workers ?s' ! a) = job_of (workers ?s' ! b)"
    then have ab: "a < length ?ws" "b < length ?ws" "job_of (?ws' ! a) \<noteq> None"
      "job_of (?ws' ! a) = job_of (?ws' ! b)" by simp_all
    show "a = b"
    proof (cases "a = w"; cases "b = w")
      assume "a = w" "b = w" then show ?thesis by simp
    next
      assume "a = w" "b \<noteq> w"
      with ab w nh [of b jid] jq show ?thesis by simp
    next
      assume "a \<noteq> w" "b = w"
      with ab w nh [of a jid] jq show ?thesis by simp
    next
      assume "a \<noteq> w" "b \<noteq> w"
      with ab u [of a b] show ?thesis by simp
    qed
  next
    fix b assume "b < length (workers ?s')"
    then have b: "b < length ?ws" by simp
    show "at_ok (jobs ?s') (workers ?s' ! b)"
    proof (cases "b = w")
      case True
      with w qs [OF jq] show ?thesis by simp
    next
      case False
      with a [OF b] show ?thesis by simp
    qed
  qed
qed

lemma put_step:
  assumes c: "consistent s" and p: "jid \<in> set (adding s)"
  shows "consistent (s\<lparr>adding := remove1 jid (adding s), job_queue := job_queue s @ [jid]\<rparr>)"
proof -
  let ?s' = "s\<lparr>adding := remove1 jid (adding s), job_queue := job_queue s @ [jid]\<rparr>"
  note d2 = consistentD(2) [OF c] and qs = consistentD(3) [OF c]
  have sub: "set (adding ?s' @ job_queue ?s') \<subseteq> set (adding s @ job_queue s)"
    using p set_remove1_subset [of jid "adding s"] by auto
  show ?thesis
  proof (rule consistentI)
    show "distinct (map fst (jobs ?s'))" using consistentD(1) [OF c] by simp
    show "distinct (adding ?s' @ job_queue ?s')"
      using d2 p by (auto dest: notin_set_remove1)
    show "positions_ok (jobs ?s')" using consistentD(6) [OF c] by simp
  next
    fix k assume "k \<in> set (adding ?s' @ job_queue ?s')"
    with sub have "k \<in> set (adding s @ job_queue s)" by blast
    from qs [OF this]
    show "status_of (jobs ?s') k = Some Queued \<and> Some k \<notin> set (map job_of (workers ?s'))"
      by simp
  next
    fix a b
    assume "a < length (workers ?s')" "b < length (workers ?s')"
      "job_of (workers ?s' ! a) \<noteq> None" "job_of (workers ?s' ! a) = job_of (workers ?s' ! b)"
    with consistentD(4) [OF c, of a b] show "a = b" by simp
  next
    fix b assume "b < length (workers ?s')"
    with consistentD(5) [OF c, of b] show "at_ok (jobs ?s') (workers ?s' ! b)" by simp
  qed
qed

lemma add_step:
  assumes c: "consistent s" and nu: "\<not> in_use s jid"
  shows "consistent (s\<lparr>jobs := add_job jid pl vid ttl q ao (jobs s), adding := adding s @ [jid]\<rparr>)
     \<and> (\<forall>k. trans_ok (status_of (jobs s) k)
            (status_of (add_job jid pl vid ttl q ao (jobs s)) k))"
proof -
  let ?t = "add_job jid pl vid ttl q ao (jobs s)"
  let ?s' = "s\<lparr>jobs := ?t, adding := adding s @ [jid]\<rparr>"
  from nu have n1: "jid \<notin> set (map fst (jobs s))" and n2: "jid \<notin> set (adding s @ job_queue s)"
    and n3: "Some jid \<notin> set (map job_of (workers s))"
    by (simp_all add: in_use_def)
  from n1 have none: "status_of (jobs s) jid = None"
    by (simp add: status_of_def map_of_eq_None_iff)
  have st: "status_of ?t k = ((status_of (jobs s))(jid := Some Queued)) k" for k
    by (simp add: add_job_def update_queue_positions_def renumber_status status_of_update
        new_job_def)
  have keys: "distinct (map fst ?t)"
    using consistentD(1) [OF c]
    by (simp add: add_job_def update_queue_positions_def renumber_keys distinct_update)
  have pos: "positions_ok ?t"
    unfolding add_job_def update_queue_positions_def by (rule renumber_positions_ok)
  note qs = consistentD(3) [OF c]
  have "consistent ?s'"
  proof (rule consistentI)
    show "distinct (map fst (jobs ?s'))" using keys by simp
    show "distinct (adding ?s' @ job_queue ?s')" using consistentD(2) [OF c] n2 by simp
    show "positions_ok (jobs ?s')" using pos by simp
  next
    fix k assume "k \<in> set (adding ?s' @ job_queue ?s')"
    then consider "k = jid" | "k \<noteq> jid" "k \<in> set (adding s @ job_queue s)" by auto
    then show "status_of (jobs ?s') k = Some Queued
        \<and> Some k \<notin> set (map job_of (workers ?s'))"
    proof cases
      case 1
      with n3 show ?thesis by (simp add: st)
    next
      case 2
      with qs [OF 2(2)] show ?thesis by (simp add: st)
    qed
  next
    fix a b
    assume "a < length (workers ?s')" "b < length (workers ?s')"
      "job_of (workers ?s' ! a) \<noteq> None" "job_of (workers ?s' ! a) = job_of (workers ?s' ! b)"
    with consistentD(4) [OF c, of a b] show "a = b" by simp
  next
    fix b assume "b < length (workers ?s')"
    then have b: "b < length (workers s)" by simp
    have "at_ok ?t (workers s ! b) = at_ok (jobs s) (workers s ! b)"
    proof (rule at_ok_cong)
      fix k assume "job_of (workers s ! b) = Some k"
      with b n3 held_index [of jid "workers s"] have "k \<noteq> jid" by blast
      then show "status_of ?t k = status_of (jobs s) k" by (simp add: st)
    qed
    with consistentD(5) [OF c b] show "at_ok (jobs ?s') (workers ?s' ! b)" by simp
  qed
  moreover have "trans_ok (status_of (jobs s) k) (status_of ?t k)" for k
    using none by (simp add: st trans_ok_refl)
  ultimately show ?thesis by simp
qed

lemma trans_ok_clear:
  "trans_ok a (if a = Some Done \<or> a = Some Error then None else a)"
proof (cases a)
  case None
  then show ?thesis by simp
next
  case (Some st)
  then show ?thesis by (cases st) simp_all
qed

lemma clear_step:
  assumes c: "consistent s"
  shows "consistent (s\<lparr>jobs := clear_jobs (jobs s)\<rparr>)
     \<and> (\<forall>k. trans_ok (status_of (jobs s) k) (status_of (clear_jobs (jobs s)) k))"
proof -
  let ?t = "clear_jobs (jobs s)"
  let ?s' = "s\<lparr>jobs := ?t\<rparr>"
  note d1 = consistentD(1) [OF c]
  note st = status_clear [OF d1]
  have "consistent ?s'"
  proof (rule consistentI)
    show "distinct (map fst (jobs ?s'))" using keys_clear [OF d1] by simp
    show "distinct (adding ?s' @ job_queue ?s')" using consistentD(2) [OF c] by simp
    show "positions_ok (jobs ?s')"
      using consistentD(6) [OF c] by (simp add: positions_ok_def positions_clear)
  next
    fix k assume "k \<in> set (adding ?s' @ job_queue ?s')"
    then have "k \<in> set (adding s @ job_queue s)" by simp
    from consistentD(3) [OF c this]
    show "status_of (jobs ?s') k = Some Queued
        \<and> Some k \<notin> set (map job_of (workers ?s'))" by (simp add: st)
  next
    fix a b
    assume "a < length (workers ?s')" "b < length (workers ?s')"
      "job_of (workers ?s' ! a) \<noteq> None" "job_of (workers ?s' ! a) = job_of (workers ?s' ! b)"
    with consistentD(4) [OF c, of a b] show "a = b" by simp
  next
    fix b assume "b < length (workers ?s')"
    then have b: "b < length (workers s)" by simp
    have "at_ok ?t y" if "at_ok (jobs s) y" for y
      using that by (cases y) (auto simp add: st)
    with consistentD(5) [OF c b] show "at_ok (jobs ?s') (workers ?s' ! b)" by simp
  qed
  moreover have "trans_ok (status_of (jobs s) k) (status_of ?t k)" for k
    unfolding st by (rule trans_ok_clear)
  ultimately show ?thesis by simp
qed

lemma fire_step:
  assumes c: "consistent s" and f: "fire ev s = Some s'" and fr: "fresh ev s"
  shows "consistent s' \<and> (\<forall>k. trans_ok (status_of (jobs s) k) (status_of (jobs s') k))"
proof (cases ev)
  case (Add jid pl vid ttl q ao)
  with f fr have nu: "\<not> in_use s jid"
    and s': "s' = s\<lparr>jobs := add_job jid pl vid ttl q ao (jobs s), adding := adding s @ [jid]\<rparr>"
    by auto
  from add_step [OF c nu, of pl vid ttl q ao] show ?thesis unfolding s' by simp
next
  case (Put jid)
  with f have p: "jid \<in> set (adding s)"
    and s': "s' = s\<lparr>adding := remove1 jid (adding s), job_queue := job_queue s @ [jid]\<rparr>"
    by (auto split: if_splits)
  from put_step [OF c p] show ?thesis unfolding s' by (simp add: trans_ok_refl)
next
  case (Get w)
  with f obtain jid q where wa: "worker_at s w = Some Idle" and q: "job_queue s = jid # q"
    and s': "s' = s\<lparr>job_queue := q, workers := (workers s)[w := Got jid]\<rparr>"
    by (auto split: option.splits wstate.splits list.splits)
  from worker_atD [OF wa] get_step [OF c _ _ q, of w]
  show ?thesis unfolding s' by (simp add: trans_ok_refl)
next
  case (Start w now)
  with f obtain jid where wa: "worker_at s w = Some (Got jid)"
    by (auto split: option.splits wstate.splits)
  from worker_atD [OF wa] have w: "w < length (workers s)" and g: "workers s ! w = Got jid"
    by simp_all
  from start_step [OF c w g, of now] obtain t' where "start_job now jid (jobs s) = Inr t'"
    and r: "consistent (s\<lparr>jobs := t', workers := (workers s)[w := Started jid]\<rparr>)"
      "\<forall>k. trans_ok (status_of (jobs s) k) (status_of t' k)" by blast
  with f Start wa have "s' = s\<lparr>jobs := t', workers := (workers s)[w := Started jid]\<rparr>"
    by simp
  with r show ?thesis by simp
next
  case (No_Playlist w now)
  with f obtain jid where wa: "worker_at s w = Some (Started jid)"
    by (auto split: option.splits wstate.splits)
  from worker_atD [OF wa] have w: "w < length (workers s)"
    and g: "workers s ! w = Started jid" by simp_all
  then have j: "job_of (workers s ! w) = Some jid" by simp
  from consistentD(5) [OF c w] g have st: "status_of (jobs s) jid = Some Running" by simp
  show ?thesis
  proof (cases "set_error ''Playlist not found'' now jid (jobs s)")
    case (Inl e)
    with f No_Playlist wa have "s' = fail_outside w jid e now s" by simp
    with fail_outside_step [OF c w j, of e now] st show ?thesis by simp
  next
    case (Inr t')
    with f No_Playlist wa have s': "s' = s\<lparr>jobs := t', workers := (workers s)[w := Idle]\<rparr>"
      by simp
    from modify_step [OF c w j Inr [unfolded set_error_def] st, of Error Idle]
    show ?thesis unfolding s' by simp
  qed
next
  case (Launch w)
  with f obtain jid where wa: "worker_at s w = Some (Started jid)"
    and s': "s' = s\<lparr>workers := (workers s)[w := Streaming jid]\<rparr>"
    by (auto split: option.splits wstate.splits)
  from worker_atD [OF wa] have w: "w < length (workers s)"
    and g: "workers s ! w = Started jid" by simp_all
  from consistentD(5) [OF c w] g have "at_ok (jobs s) (Streaming jid)" by simp
  from idle_step [OF c w _ this, of jid] g
  show ?thesis unfolding s' by (simp add: trans_ok_refl)
next
  case (Line w raw now)
  with f obtain jid where wa: "worker_at s w = Some (Streaming jid)"
    by (auto split: option.splits wstate.splits)
  from worker_atD [OF wa] have w: "w < length (workers s)"
    and g: "workers s ! w = Streaming jid" by simp_all
  then have j: "job_of (workers s ! w) = Some jid" by simp
  from consistentD(5) [OF c w] g have st: "status_of (jobs s) jid = Some Running" by simp
  show ?thesis
  proof (cases "parse_line (rstrip raw)")
    case (Inl e)
    with f Line wa have "s' = fail_inside w jid e now s" by simp
    with fail_inside_step [OF c w j, of e now] st show ?thesis by simp
  next
    case (Inr parsed)
    show ?thesis
    proof (cases "modify jid (line_update (rstrip raw) parsed) (jobs s)")
      case (Inl e)
      with f Line wa Inr have "s' = fail_inside w jid e now s" by simp
      with fail_inside_step [OF c w j, of e now] st show ?thesis by simp
    next
      case m: (Inr t')
      with f Line wa Inr have s': "s' = s\<lparr>jobs := t'\<rparr>" by simp
      from modify_step [OF c w j m st, of Running "Streaming jid"] g
      have "consistent (s\<lparr>jobs := t', workers := (workers s)[w := workers s ! w]\<rparr>)
          \<and> (\<forall>k. trans_ok (status_of (jobs s) k) (status_of t' k))"
        by (simp add: status_line_update)
      then show ?thesis unfolding s' by simp
    qed
  qed
next
  case (Exit_Ok w out now)
  with f obtain jid where wa: "worker_at s w = Some (Streaming jid)"
    by (auto split: option.splits wstate.splits)
  from worker_atD [OF wa] have w: "w < length (workers s)"
    and g: "workers s ! w = Streaming jid" by simp_all
  then have j: "job_of (workers s ! w) = Some jid" by simp
  from consistentD(5) [OF c w] g have st: "status_of (jobs s) jid = Some Running" by simp
  show ?thesis
  proof (cases "finish_done out now jid (jobs s)")
    case (Inl e)
    with f Exit_Ok wa have "s' = fail_inside w jid e now s" by simp
    with fail_inside_step [OF c w j, of e now] st show ?thesis by simp
  next
    case (Inr t')
    with f Exit_Ok wa
    have s': "s' = s\<lparr>jobs := t', workers := (workers s)[w := Finished jid]\<rparr>" by simp
    from modify_step [OF c w j Inr [unfolded finish_done_def] st, of Done "Finished jid"]
    show ?thesis unfolding s' by simp
  qed
next
  case (Exit_Fail w now)
  with f obtain jid where wa: "worker_at s w = Some (Streaming jid)"
    by (auto split: option.splits wstate.splits)
  from worker_atD [OF wa] have w: "w < length (workers s)"
    and g: "workers s ! w = Streaming jid" by simp_all
  then have j: "job_of (workers s ! w) = Some jid" by simp
  from consistentD(5) [OF c w] g have st: "status_of (jobs s) jid = Some Running" by simp
  show ?thesis
  proof (cases "finish_error now jid (jobs s)")
    case (Inl e)
    with f Exit_Fail wa have "s' = fail_inside w jid e now s" by simp
    with fail_inside_step [OF c w j, of e now] st show ?thesis by simp
  next
    case (Inr t')
    with f Exit_Fail wa
    have s': "s' = s\<lparr>jobs := t', workers := (workers s)[w := Idle]\<rparr>" by simp
    from modify_step [OF c w j Inr [unfolded finish_error_def] st, of Error Idle]
    show ?thesis unfolding s' by simp
  qed
next
  case (Reconciled w)
  with f obtain jid where wa: "worker_at s w = Some (Finished jid)"
    and s': "s' = s\<lparr>workers := (workers s)[w := Idle]\<rparr>"
    by (auto split: option.splits wstate.splits)
  from worker_atD [OF wa] have w: "w < length (workers s)"
    and g: "workers s ! w = Finished jid" by simp_all
  from idle_step [OF c w, of jid Idle] g
  show ?thesis unfolding s' by (simp add: trans_ok_refl)
next
  case (Raise w e now)
  with f consider jid where "worker_at s w = Some (Started jid)" "s' = fail_outside w jid e now s"
    | jid where "worker_at s w = Some (Streaming jid)" "s' = fail_inside w jid e now s"
    | jid where "worker_at s w = Some (Finished jid)" "s' = fail_inside w jid e now s"
    by (auto split: option.splits wstate.splits)
  then show ?thesis
  proof cases
    case 1
    from worker_atD [OF 1(1)] have w: "w < length (workers s)"
      and g: "workers s ! w = Started jid" by simp_all
    from consistentD(5) [OF c w] g have "status_of (jobs s) jid \<noteq> Some Queued" by simp
    from fail_outside_step [OF c w _ this, of e now] g 1(2) show ?thesis by simp
  next
    case 2
    from worker_atD [OF 2(1)] have w: "w < length (workers s)"
      and g: "workers s ! w = Streaming jid" by simp_all
    from consistentD(5) [OF c w] g have "status_of (jobs s) jid \<noteq> Some Queued" by simp
    from fail_inside_step [OF c w _ this, of e now] g 2(2) show ?thesis by simp
  next
    case 3
    from worker_atD [OF 3(1)] have w: "w < length (workers s)"
      and g: "workers s ! w = Finished jid" by simp_all
    from consistentD(5) [OF c w] g have "status_of (jobs s) jid \<noteq> Some Queued" by auto
    from fail_inside_step [OF c w _ this, of e now] g 3(2) show ?thesis by simp
  qed
next
  case Clear
  with f have "s' = s\<lparr>jobs := clear_jobs (jobs s)\<rparr>" by simp
  with clear_step [OF c] show ?thesis by simp
qed

subsection \<open>Status steps and queue positions in every run\<close>

lemma init_consistent: "consistent (init n)"
  by (rule consistentI)
     (simp_all add: init_def positions_ok_def queued_positions_def)

lemma run_head: "\<exists>tr. run evs s = s # tr"
  by (cases evs) simp_all

lemma run_consistent:
  "consistent s \<Longrightarrow> no_reuse evs s \<Longrightarrow> s' \<in> set (run evs s) \<Longrightarrow> consistent s'"
proof (induction evs arbitrary: s)
  case Nil
  then show ?case by simp
next
  case (Cons ev evs)
  show ?case
  proof (cases "fire ev s")
    case None
    with Cons.prems show ?thesis by simp
  next
    case (Some s1)
    from Cons.prems(2) Some have fr: "fresh ev s" and nr: "no_reuse evs s1" by simp_all
    from fire_step [OF Cons.prems(1) Some fr] have "consistent s1" by simp
    with Cons.IH [of s1] nr Cons.prems Some show ?thesis by auto
  qed
qed

lemma run_chain:
  "consistent s \<Longrightarrow> no_reuse evs s \<Longrightarrow> chain (history jid (run evs s))"
proof (induction evs arbitrary: s)
  case Nil
  then show ?case by (simp add: history_def)
next
  case (Cons ev evs)
  show ?case
  proof (cases "fire ev s")
    case None
    then show ?thesis by (simp add: history_def)
  next
    case (Some s1)
    from Cons.prems(2) Some have fr: "fresh ev s" and nr: "no_reuse evs s1" by simp_all
    from fire_step [OF Cons.prems(1) Some fr] have c1: "consistent s1"
      and t: "trans_ok (status_of (jobs s) jid) (status_of (jobs s1) jid)" by simp_all
    from run_head obtain tr where tr: "run evs s1 = s1 # tr" by blast
    from Cons.IH [OF c1 nr] tr t Some show ?thesis by (simp add: history_def)
  qed
qed

lemma chain_lifecycle:
  "chain (a # h) \<Longrightarrow> (a = Some Done \<or> a = Some Error \<longrightarrow> r) \<Longrightarrow> lifecycle r (a # h)"
proof (induction h arbitrary: a r)
  case Nil
  then show ?case by (cases "(r, [a])" rule: lifecycle.cases) auto
next
  case (Cons b h)
  from Cons.prems have t: "trans_ok a b" and c: "chain (b # h)" by simp_all
  show ?case
  proof (cases a)
    case None
    with t have "b = Some Done \<or> b = Some Error \<longrightarrow> False" by auto
    from Cons.IH [OF c this] None show ?thesis by simp
  next
    case (Some st)
    show ?thesis
    proof (cases st)
      case Queued
      with Some t have "b = Some Done \<or> b = Some Error \<longrightarrow> r" by auto
      from Cons.IH [OF c this] Some Queued show ?thesis by simp
    next
      case Running
      have "b = Some Done \<or> b = Some Error \<longrightarrow> True" by simp
      from Cons.IH [OF c this] Some Running show ?thesis by simp
    next
      case Done
      with Some Cons.prems(2) have r by simp
      then have "b = Some Done \<or> b = Some Error \<longrightarrow> r" by simp
      from Cons.IH [OF c this] Some Done \<open>r\<close> show ?thesis by simp
    next
      case Error
      with Some Cons.prems(2) have r by simp
      then have "b = Some Done \<or> b = Some Error \<longrightarrow> r" by simp
      from Cons.IH [OF c this] Some Error \<open>r\<close> show ?thesis by simp
    qed
  qed
qed

text \<open>
  Claim C3, as amended. In every run of the system from its start in which no call of
  \<^verbatim>\<open>add_job\<close> draws an id that is in use, the status of every job moves as follows from
  each state to the next: its record appears as queued, it becomes running only from
  queued, done only from running, and error neither from queued nor as it appears; a status
  once left is not entered again, error is left for no other status, and a record leaves
  the table only when it is done or error. No job is seen done or error unless its record
  was seen running before.
\<close>

theorem status_steps:
  assumes "no_reuse evs (init n)"
  shows "chain (history jid (run evs (init n)))
     \<and> lifecycle False (history jid (run evs (init n)))"
proof -
  have c: "chain (history jid (run evs (init n)))"
    by (rule run_chain [OF init_consistent assms])
  from run_head obtain tr where tr: "run evs (init n) = init n # tr" by blast
  have "status_of (jobs (init n)) jid = None" by (simp add: init_def status_of_def)
  with c tr have "lifecycle False (history jid (run evs (init n)))"
    using chain_lifecycle [of "status_of (jobs (init n)) jid" "history jid tr" False]
    by (simp add: history_def)
  with c show ?thesis by simp
qed

theorem status_steps_witness:
  "no_reuse ex_events (init 2)
   \<and> history ''j1'' (run ex_events (init 2)) =
     [None, Some Queued, Some Queued, Some Queued, Some Queued, Some Queued,
      Some Running, Some Running, Some Running, Some Done, Some Error, None]
   \<and> chain (history ''j1'' (run ex_events (init 2)))
   \<and> lifecycle False (history ''j1'' (run ex_events (init 2)))"
proof -
  have nr: "no_reuse ex_events (init 2)" by code_simp
  have "history ''j1'' (run ex_events (init 2)) =
     [None, Some Queued, Some Queued, Some Queued, Some Queued, Some Queued,
      Some Running, Some Running, Some Running, Some Done, Some Error, None]"
    by code_simp
  with status_steps [OF nr, of "''j1''"] nr show ?thesis by simp
qed

text \<open>
  The claim as stated fails. When \<^verbatim>\<open>add_job\<close> draws the id of a job that is running, the
  record of that job is replaced: the job is seen running, then queued, then done, without
  running in between. And in the second run job \<^verbatim>\<open>j1\<close> is done and then error.
\<close>

theorem status_claim_counterexample:
  "\<not> no_reuse ex_reuse_events (init 1)
   \<and> history ''j1'' (run ex_reuse_events (init 1)) =
       [None, Some Queued, Some Queued, Some Queued, Some Queued, Some Running,
        Some Running, Some Queued, Some Done]
   \<and> take 2 (drop 9 (history ''j1'' (run ex_events (init 2)))) = [Some Done, Some Error]"
  by code_simp

subsection \<open>Queue positions\<close>

lemma positions_AList_update:
  "map_of t k = Some j \<Longrightarrow> queue_pos j' = queue_pos j \<Longrightarrow>
   positions (AList.update k j' t) = positions t"
  by (induction t) (auto simp add: positions_def split: if_splits)

lemma positions_modify:
  assumes "modify jid f t = Inr t'" and "\<And>j. queue_pos (f j) = queue_pos j"
  shows "positions t' = positions t"
proof -
  from modify_Inr [OF assms(1)] obtain j where "map_of t jid = Some j"
    and "t' = AList.update jid (f j) t" by blast
  with assms(2) [of j] show ?thesis by (simp add: positions_AList_update)
qed

lemma positions_line:
  "modify jid (line_update line parsed) t = Inr t' \<Longrightarrow> positions t' = positions t"
  by (erule positions_modify) (simp add: line_update_def Let_def split: option.splits)

lemma positions_set_error:
  "set_error msg now jid t = Inr t' \<Longrightarrow> positions t' = positions t"
  unfolding set_error_def by (erule positions_modify) simp

lemma positions_finish_done:
  "finish_done out now jid t = Inr t' \<Longrightarrow> positions t' = positions t"
  unfolding finish_done_def by (erule positions_modify) simp

lemma positions_finish_error:
  "finish_error now jid t = Inr t' \<Longrightarrow> positions t' = positions t"
  unfolding finish_error_def by (erule positions_modify) simp

lemma positions_worker_except:
  "worker_except e now jid t = Inr t' \<Longrightarrow> positions t' = positions t"
  by (auto simp add: worker_except_def dest: positions_set_error split: if_splits)

lemma positions_fail_outside:
  "positions (jobs (fail_outside w jid e now s)) = positions (jobs s)"
  by (cases "worker_except e now jid (jobs s)")
     (simp_all add: fail_outside_def positions_worker_except)

lemma positions_fail_inside:
  "positions (jobs (fail_inside w jid e now s)) = positions (jobs s)"
  by (cases "set_error (py_str e) now jid (jobs s)")
     (simp_all add: fail_inside_def positions_fail_outside positions_set_error)

lemma positions_clear_jobs: "set (positions (clear_jobs t)) \<subseteq> set (positions t)"
  by (auto simp add: positions_def clear_jobs_def)

lemma no_recompute:
  assumes "\<not> recomputes ev" and "fire ev s = Some s'"
  shows "set (positions (jobs s')) \<subseteq> set (positions (jobs s))"
proof (cases ev)
  case (Add jid pl vid ttl q ao)
  with assms(1) show ?thesis by simp
next
  case (Put jid)
  with assms(2) show ?thesis by (auto split: if_splits)
next
  case (Get w)
  with assms(2) show ?thesis by (auto split: option.splits wstate.splits list.splits)
next
  case (Start w now)
  with assms(1) show ?thesis by simp
next
  case (No_Playlist w now)
  with assms(2) have "positions (jobs s') = positions (jobs s)"
    by (auto simp add: positions_fail_outside positions_set_error
        split: option.splits wstate.splits sum.splits)
  then show ?thesis by simp
next
  case (Launch w)
  with assms(2) show ?thesis by (auto split: option.splits wstate.splits)
next
  case (Line w raw now)
  with assms(2) have "positions (jobs s') = positions (jobs s)"
    by (auto simp add: positions_fail_inside positions_line
        split: option.splits wstate.splits sum.splits)
  then show ?thesis by simp
next
  case (Exit_Ok w out now)
  with assms(2) have "positions (jobs s') = positions (jobs s)"
    by (auto simp add: positions_fail_inside positions_finish_done
        split: option.splits wstate.splits sum.splits)
  then show ?thesis by simp
next
  case (Exit_Fail w now)
  with assms(2) have "positions (jobs s') = positions (jobs s)"
    by (auto simp add: positions_fail_inside positions_finish_error
        split: option.splits wstate.splits sum.splits)
  then show ?thesis by simp
next
  case (Reconciled w)
  with assms(2) show ?thesis by (auto split: option.splits wstate.splits)
next
  case (Raise w e now)
  with assms(2) have "positions (jobs s') = positions (jobs s)"
    by (auto simp add: positions_fail_inside positions_fail_outside
        split: option.splits wstate.splits)
  then show ?thesis by simp
next
  case Clear
  with assms(2) positions_clear_jobs [of "jobs s"] show ?thesis by auto
qed

lemma update_positions_ok: "positions_ok (update_queue_positions t)"
  unfolding update_queue_positions_def by (rule renumber_positions_ok)

lemma add_recomputes:
  "fire (Add jid pl vid ttl q ao) s = Some s' \<Longrightarrow> positions_ok (jobs s')"
  by (auto simp add: add_job_def update_positions_ok)

lemma start_recomputes:
  assumes "fire (Start w now) s = Some s'" and "worker_at s' w = Some (Started k)"
  shows "positions_ok (jobs s')"
proof -
  from assms(1) obtain jid where wa: "worker_at s w = Some (Got jid)"
    by (auto split: option.splits wstate.splits)
  show ?thesis
  proof (cases "start_job now jid (jobs s)")
    case (Inl e)
    with assms(1) wa have "s' = fail_outside w jid e now s" by simp
    then have "workers s' = (workers s)[w := Idle]" by (simp add: fail_outside_workers)
    with assms(2) worker_atD [OF wa] show ?thesis by (simp add: worker_at_def)
  next
    case (Inr t')
    then have "positions_ok t'"
      by (auto simp add: start_job_def update_positions_ok split: sum.splits)
    with assms(1) wa Inr show ?thesis by auto
  qed
qed

text \<open>
  Claim C4, as amended. In every state of every run of the system from its start in
  which no call of \<^verbatim>\<open>add_job\<close> draws an id that is in use, the queue positions of the jobs
  that are queued are 1, 2, up to their number, in the order of the table. The positions
  are recomputed when a job is added and when a job starts to run, and then they are
  contiguous whatever the state before; every other event (a job marked done or error, a
  line of output, the cleanup) recomputes nothing: each record that is still in the table
  keeps its position.
\<close>

theorem queue_positions_contiguous:
  "(no_reuse evs (init n) \<longrightarrow>
      (\<forall>s \<in> set (run evs (init n)).
         queued_positions (jobs s) = [1 ..< Suc (length (queued_positions (jobs s)))]))
   \<and> (\<forall>s s'. fire (Add jid pl vid ttl q ao) s = Some s' \<longrightarrow>
         queued_positions (jobs s') = [1 ..< Suc (length (queued_positions (jobs s')))])
   \<and> (\<forall>s s' k. fire (Start w now) s = Some s' \<and> worker_at s' w = Some (Started k) \<longrightarrow>
         queued_positions (jobs s') = [1 ..< Suc (length (queued_positions (jobs s')))])
   \<and> (\<forall>s s'. \<not> recomputes ev \<and> fire ev s = Some s' \<longrightarrow>
         set (positions (jobs s')) \<subseteq> set (positions (jobs s)))"
proof (intro conjI allI impI ballI)
  fix s assume "no_reuse evs (init n)" "s \<in> set (run evs (init n))"
  from consistentD(6) [OF run_consistent [OF init_consistent this]]
  show "queued_positions (jobs s) = [1 ..< Suc (length (queued_positions (jobs s)))]"
    by (simp only: positions_ok_def)
next
  fix s s' assume "fire (Add jid pl vid ttl q ao) s = Some s'"
  from add_recomputes [OF this]
  show "queued_positions (jobs s') = [1 ..< Suc (length (queued_positions (jobs s')))]"
    by (simp only: positions_ok_def)
next
  fix s s' k assume "fire (Start w now) s = Some s' \<and> worker_at s' w = Some (Started k)"
  then have "positions_ok (jobs s')" using start_recomputes by blast
  then show "queued_positions (jobs s') = [1 ..< Suc (length (queued_positions (jobs s')))]"
    by (simp only: positions_ok_def)
next
  fix s s' assume "\<not> recomputes ev \<and> fire ev s = Some s'"
  then show "set (positions (jobs s')) \<subseteq> set (positions (jobs s))"
    using no_recompute by blast
qed

theorem queue_positions_contiguous_witness:
  "no_reuse ex_events (init 2)
   \<and> run ex_events (init 2) ! 5 \<in> set (run ex_events (init 2))
   \<and> map (\<lambda>(k, j). (k, status j, queue_pos j)) (jobs (run ex_events (init 2) ! 5)) =
       [(''j1'', Queued, 1), (''j2'', Queued, 2)]
   \<and> queued_positions (jobs (run ex_events (init 2) ! 5)) = [1, 2]
   \<and> fire (Start 0 1) (run ex_events (init 2) ! 5) = Some (run ex_events (init 2) ! 6)
   \<and> worker_at (run ex_events (init 2) ! 6) 0 = Some (Started ''j1'')
   \<and> map (\<lambda>(k, j). (k, status j, queue_pos j)) (jobs (run ex_events (init 2) ! 6)) =
       [(''j1'', Running, 1), (''j2'', Queued, 1)]
   \<and> queued_positions (jobs (run ex_events (init 2) ! 6)) = [1]
   \<and> \<not> recomputes (Exit_Ok 0 (Some ''/dl/p1/t [v1].mp4'') 3)
   \<and> fire (Exit_Ok 0 (Some ''/dl/p1/t [v1].mp4'') 3) (run ex_events (init 2) ! 8) =
       Some (run ex_events (init 2) ! 9)
   \<and> positions (jobs (run ex_events (init 2) ! 8)) = [(''j1'', 1), (''j2'', 1)]
   \<and> set (positions (jobs (run ex_events (init 2) ! 9))) \<subseteq> {(''j1'', 1), (''j2'', 1)}"
proof -
  have nr: "no_reuse ex_events (init 2)" by code_simp
  have l: "length (run ex_events (init 2)) = 12" by code_simp
  then have m: "run ex_events (init 2) ! 5 \<in> set (run ex_events (init 2))" by simp
  have a: "map (\<lambda>(k, j). (k, status j, queue_pos j)) (jobs (run ex_events (init 2) ! 5)) =
       [(''j1'', Queued, 1), (''j2'', Queued, 2)]" by code_simp
  have b: "map (\<lambda>(k, j). (k, status j, queue_pos j)) (jobs (run ex_events (init 2) ! 6)) =
       [(''j1'', Running, 1), (''j2'', Queued, 1)]" by code_simp
  have c: "length (queued_positions (jobs (run ex_events (init 2) ! 5))) = 2" by code_simp
  have d: "length (queued_positions (jobs (run ex_events (init 2) ! 6))) = 1" by code_simp
  have f1: "fire (Start 0 1) (run ex_events (init 2) ! 5) = Some (run ex_events (init 2) ! 6)"
    by code_simp
  have w1: "worker_at (run ex_events (init 2) ! 6) 0 = Some (Started ''j1'')" by code_simp
  have r: "\<not> recomputes (Exit_Ok 0 (Some ''/dl/p1/t [v1].mp4'') 3)" by simp
  have f2: "fire (Exit_Ok 0 (Some ''/dl/p1/t [v1].mp4'') 3) (run ex_events (init 2) ! 8) =
       Some (run ex_events (init 2) ! 9)" by code_simp
  have p: "positions (jobs (run ex_events (init 2) ! 8)) = [(''j1'', 1), (''j2'', 1)]"
    by code_simp
  note t = queue_positions_contiguous [of ex_events 2 "''j1''" "''p1''" "''v1''" "''t''"
      "''best''" False 0 1 "Exit_Ok 0 (Some ''/dl/p1/t [v1].mp4'') 3"]
  have u2: "[1 ..< Suc 2] = [1, 2::nat]" by code_simp
  have u1: "[1 ..< Suc 1] = [1::nat]" by code_simp
  from t nr m have "queued_positions (jobs (run ex_events (init 2) ! 5)) =
      [1 ..< Suc (length (queued_positions (jobs (run ex_events (init 2) ! 5))))]" by blast
  then have q5: "queued_positions (jobs (run ex_events (init 2) ! 5)) = [1, 2]"
    by (simp only: c u2)
  from t f1 w1 have "queued_positions (jobs (run ex_events (init 2) ! 6)) =
      [1 ..< Suc (length (queued_positions (jobs (run ex_events (init 2) ! 6))))]" by blast
  then have q6: "queued_positions (jobs (run ex_events (init 2) ! 6)) = [1]"
    by (simp only: d u1)
  from t r f2 have "set (positions (jobs (run ex_events (init 2) ! 9))) \<subseteq>
      set (positions (jobs (run ex_events (init 2) ! 8)))" by blast
  then have q9: "set (positions (jobs (run ex_events (init 2) ! 9))) \<subseteq>
      {(''j1'', 1), (''j2'', 1)}" by (simp add: p)
  from nr m a q5 f1 w1 b q6 r f2 p q9 show ?thesis by (intro conjI)
qed

text \<open>
  The claim as stated fails: in the first run above the id \<^verbatim>\<open>j1\<close> is drawn again while
  its job runs; the new record is queued at position 1 and \<^verbatim>\<open>j2\<close> at position 2, then
  the worker marks \<^verbatim>\<open>j1\<close> done (line 241, where nothing is recomputed), and the only
  queued job is left at position 2.
\<close>

theorem reused_id_leaves_gap:
  "length (run ex_reuse_events (init 1)) = 9
   \<and> map (\<lambda>(k, j). (k, status j, queue_pos j)) (jobs (run ex_reuse_events (init 1) ! 7)) =
       [(''j1'', Queued, 1), (''j2'', Queued, 2)]
   \<and> map (\<lambda>(k, j). (k, status j, queue_pos j)) (jobs (run ex_reuse_events (init 1) ! 8)) =
       [(''j1'', Done, 1), (''j2'', Queued, 2)]
   \<and> queued_positions (jobs (run ex_reuse_events (init 1) ! 8)) = [2]"
  by code_simp

subsection \<open>Failures stay inside the worker loop\<close>












end
